theory Spec2Isabelle
  imports Complex_Main "HOL-Library.Multiset"
begin

section \<open>JavaScript values and built-ins used by the program\<close>

text \<open>
  The responses handled by \<^verbatim>\<open>App.tsx\<close> are the results of \<^verbatim>\<open>JSON.parse\<close>
  cast to \<^verbatim>\<open>GeminiResponse\<close>: at run time they are arbitrary parsed values, and the
  code guards against that (\<^verbatim>\<open>schema.collections || []\<close>, \<^verbatim>\<open>safeString\<close>).  The model
  therefore works on run-time values.  \<open>JUndefined\<close> is what reading an absent property
  yields.  An object is the list of its own properties (keys unique, as after parsing).
  A string is a sequence of code units; \<^typ>\<open>char\<close> covers the code units below 256.
\<close>

datatype jsval =
    JUndefined
  | JNull
  | JBool bool
  | JNum rat
  | JStr string
  | JArr "jsval list"
  | JObj "(string \<times> jsval) list"

datatype error = TypeError

text \<open>ToBoolean: what \<^verbatim>\<open>!x\<close>, \<^verbatim>\<open>x || y\<close> and \<^verbatim>\<open>x && y\<close> test.\<close>

fun truthy :: "jsval \<Rightarrow> bool" where
  "truthy JUndefined = False"
| "truthy JNull = False"
| "truthy (JBool b) = b"
| "truthy (JNum n) = (n \<noteq> 0)"
| "truthy (JStr s) = (s \<noteq> [])"
| "truthy (JArr xs) = True"
| "truthy (JObj kvs) = True"

text \<open>
  Property read \<^verbatim>\<open>v.k\<close>, for the property names the program reads
  (\<^verbatim>\<open>schema\<close>, \<^verbatim>\<open>collections\<close>, \<^verbatim>\<open>fields\<close>, \<^verbatim>\<open>name\<close>, \<^verbatim>\<open>type\<close>), none of
  which a built-in prototype defines: it throws on \<^verbatim>\<open>undefined\<close> and \<^verbatim>\<open>null\<close>, finds an
  object's own property, and is \<^verbatim>\<open>undefined\<close> on everything else.
\<close>

fun getProp :: "jsval \<Rightarrow> string \<Rightarrow> error + jsval" where
  "getProp JUndefined k = Inl TypeError"
| "getProp JNull k = Inl TypeError"
| "getProp (JObj kvs) k = Inr (case map_of kvs k of None \<Rightarrow> JUndefined | Some v \<Rightarrow> v)"
| "getProp v k = Inr JUndefined"

text \<open>
  The receiver of \<^verbatim>\<open>.map(...)\<close>: an array has the method; on any other value of parsed
  data \<^verbatim>\<open>v.map\<close> is not a function and the call throws.
\<close>

fun asArray :: "jsval \<Rightarrow> error + jsval list" where
  "asArray (JArr xs) = Inr xs"
| "asArray v = Inl TypeError"

text \<open>\<^verbatim>\<open>xs.map(f)\<close> where \<open>f\<close> may throw: the first exception ends the loop.\<close>

fun mapE :: "('a \<Rightarrow> error + 'b) \<Rightarrow> 'a list \<Rightarrow> error + 'b list" where
  "mapE f [] = Inr []"
| "mapE f (x # xs) =
     (case f x of
        Inl e \<Rightarrow> Inl e
      | Inr y \<Rightarrow> (case mapE f xs of Inl e \<Rightarrow> Inl e | Inr ys \<Rightarrow> Inr (y # ys)))"

text \<open>
  \<^verbatim>\<open>String.prototype.trim\<close>: strips white space and line terminators from both ends.
  Below 256 these are TAB, LF, VT, FF, CR, SPACE and NO-BREAK SPACE.
\<close>

definition isWhiteSpace :: "char \<Rightarrow> bool" where
  "isWhiteSpace c =
     (c \<in> set [CHR 0x09, CHR 0x0A, CHR 0x0B, CHR 0x0C, CHR 0x0D, CHR 0x20, CHR 0xA0])"

definition trimStart :: "string \<Rightarrow> string" where
  "trimStart s = dropWhile isWhiteSpace s"

definition trimEnd :: "string \<Rightarrow> string" where
  "trimEnd s = rev (dropWhile isWhiteSpace (rev s))"

definition trim :: "string \<Rightarrow> string" where
  "trim s = trimEnd (trimStart s)"

text \<open>
  \<^verbatim>\<open>Array.prototype.sort(comparefn)\<close>.  The comparator returns a number: negative puts
  its first argument first, positive its second, zero keeps the two in their order (the
  sort is stable).  For a consistent comparator the result is the stable sort, computed
  here by insertion from the right.
\<close>

fun insertSorted :: "('a \<Rightarrow> 'a \<Rightarrow> int) \<Rightarrow> 'a \<Rightarrow> 'a list \<Rightarrow> 'a list" where
  "insertSorted cmp x [] = [x]"
| "insertSorted cmp x (y # ys) =
     (if cmp x y \<le> 0 then x # y # ys else y # insertSorted cmp x ys)"

definition arraySort :: "('a \<Rightarrow> 'a \<Rightarrow> int) \<Rightarrow> 'a list \<Rightarrow> 'a list" where
  "arraySort cmp xs = foldr (insertSorted cmp) xs []"

text \<open>
  A consistent comparator, as the language standard asks of \<^verbatim>\<open>comparefn\<close>: equal to
  itself, antisymmetric in sign, transitive.  \<^verbatim>\<open>String.prototype.localeCompare\<close> is one;
  its order is the host's collation, so the normaliser takes it as the parameter \<open>lc\<close>.
\<close>

definition consistentComparator :: "('a \<Rightarrow> 'a \<Rightarrow> int) \<Rightarrow> bool" where
  "consistentComparator cmp =
     ((\<forall>a. cmp a a = 0) \<and>
      (\<forall>a b. (cmp a b < 0) = (0 < cmp b a)) \<and>
      (\<forall>a b c. cmp a b \<le> 0 \<and> cmp b c \<le> 0 \<longrightarrow> cmp a c \<le> 0))"

text \<open>Comparison by code units: a consistent comparator to run the model with.\<close>

fun codeUnitCompare :: "string \<Rightarrow> string \<Rightarrow> int" where
  "codeUnitCompare [] [] = 0"
| "codeUnitCompare [] (y # ys) = - 1"
| "codeUnitCompare (x # xs) [] = 1"
| "codeUnitCompare (x # xs) (y # ys) =
     (if (of_char x :: nat) < of_char y then - 1
      else if (of_char y :: nat) < of_char x then 1
      else codeUnitCompare xs ys)"

section \<open>The schema normaliser (\<^verbatim>\<open>normalizeSchema\<close>, App.tsx)\<close>

text \<open>The object literals the normaliser builds.\<close>

record normField =
  nf_name :: string
  nf_type :: string

record normCollection =
  nc_name :: string
  nc_fields :: "normField list"

record normSchema =
  ns_collections :: "normCollection list"

text \<open>\<^verbatim>\<open>const safeString = (s: any): string => (s && typeof s === 'string') ? s.trim() : ''\<close>\<close>

fun isString :: "jsval \<Rightarrow> bool" where
  "isString (JStr s) = True"
| "isString v = False"

fun stringOf :: "jsval \<Rightarrow> string" where
  "stringOf (JStr s) = s"
| "stringOf v = []"

definition safeString :: "jsval \<Rightarrow> string" where
  "safeString s = (if truthy s \<and> isString s then trim (stringOf s) else [])"

text \<open>\<^verbatim>\<open>x || []\<close>\<close>

definition orEmptyArray :: "jsval \<Rightarrow> jsval" where
  "orEmptyArray v = (if truthy v then v else JArr [])"

text \<open>
  The callback \<^verbatim>\<open>field => ({ name: safeString(field.name), type: safeString(field.type) })\<close>.
\<close>

definition normalizeField :: "jsval \<Rightarrow> error + normField" where
  "normalizeField field =
     (case getProp field ''name'' of
        Inl e \<Rightarrow> Inl e
      | Inr n \<Rightarrow>
          (case getProp field ''type'' of
             Inl e \<Rightarrow> Inl e
           | Inr t \<Rightarrow> Inr \<lparr>nf_name = safeString n, nf_type = safeString t\<rparr>))"

text \<open>The callback of \<^verbatim>\<open>(schema.collections || []).map(collection => ...)\<close>.\<close>

definition normalizeCollection :: "(string \<Rightarrow> string \<Rightarrow> int) \<Rightarrow> jsval \<Rightarrow> error + normCollection" where
  "normalizeCollection lc collection =
     (case getProp collection ''fields'' of
        Inl e \<Rightarrow> Inl e
      | Inr fv \<Rightarrow>
          (case asArray (orEmptyArray fv) of
             Inl e \<Rightarrow> Inl e
           | Inr fieldList \<Rightarrow>
               (case mapE normalizeField fieldList of
                  Inl e \<Rightarrow> Inl e
                | Inr normalizedFields \<Rightarrow>
                    (case getProp collection ''name'' of
                       Inl e \<Rightarrow> Inl e
                     | Inr n \<Rightarrow>
                         Inr \<lparr>nc_name = safeString n,
                              nc_fields =
                                arraySort (\<lambda>a b. lc (nf_name a) (nf_name b)) normalizedFields\<rparr>))))"

definition normalizeSchema :: "(string \<Rightarrow> string \<Rightarrow> int) \<Rightarrow> jsval \<Rightarrow> error + normSchema" where
  "normalizeSchema lc schema =
     (case getProp schema ''collections'' of
        Inl e \<Rightarrow> Inl e
      | Inr cv \<Rightarrow>
          (case asArray (orEmptyArray cv) of
             Inl e \<Rightarrow> Inl e
           | Inr collections \<Rightarrow>
               (case mapE (normalizeCollection lc) collections of
                  Inl e \<Rightarrow> Inl e
                | Inr normalizedCollections \<Rightarrow>
                    Inr \<lparr>ns_collections =
                           arraySort (\<lambda>a b. lc (nc_name a) (nc_name b)) normalizedCollections\<rparr>)))"

text \<open>
  \<^verbatim>\<open>JSON.stringify\<close> of the normaliser's result.  A string is quoted with the escapes
  of the standard (QuoteJSONString): the two-character escapes for backspace, tab, line
  feed, form feed, carriage return, the double quote and the backslash, and
  \<^verbatim>\<open>\u00hh\<close> for the other code units below 0x20.
\<close>

definition dquote :: char where
  "dquote = CHR 0x22"

definition backslash :: char where
  "backslash = CHR 0x5C"

definition hexDigit :: "nat \<Rightarrow> char" where
  "hexDigit n = ''0123456789abcdef'' ! n"

definition quoteJSONChar :: "char \<Rightarrow> string" where
  "quoteJSONChar c =
     (if c = CHR 0x08 then [backslash, CHR ''b'']
      else if c = CHR 0x09 then [backslash, CHR ''t'']
      else if c = CHR 0x0A then [backslash, CHR ''n'']
      else if c = CHR 0x0C then [backslash, CHR ''f'']
      else if c = CHR 0x0D then [backslash, CHR ''r'']
      else if c = dquote then [backslash, dquote]
      else if c = backslash then [backslash, backslash]
      else if (of_char c :: nat) < 32 then
        [backslash, CHR ''u'', CHR ''0'', CHR ''0'',
         hexDigit (of_char c div 16), hexDigit (of_char c mod 16)]
      else [c])"

definition quoteJSONString :: "string \<Rightarrow> string" where
  "quoteJSONString s = dquote # concat (map quoteJSONChar s) @ [dquote]"

fun joinComma :: "string list \<Rightarrow> string" where
  "joinComma [] = []"
| "joinComma [x] = x"
| "joinComma (x # y # ys) = x @ '','' @ joinComma (y # ys)"

definition stringifyArray :: "string list \<Rightarrow> string" where
  "stringifyArray elems = ''['' @ joinComma elems @ '']''"

definition stringifyField :: "normField \<Rightarrow> string" where
  "stringifyField f =
     ''{'' @ quoteJSONString ''name'' @ '':'' @ quoteJSONString (nf_name f) @ '','' @
     quoteJSONString ''type'' @ '':'' @ quoteJSONString (nf_type f) @ ''}''"

definition stringifyCollection :: "normCollection \<Rightarrow> string" where
  "stringifyCollection c =
     ''{'' @ quoteJSONString ''name'' @ '':'' @ quoteJSONString (nc_name c) @ '','' @
     quoteJSONString ''fields'' @ '':'' @ stringifyArray (map stringifyField (nc_fields c)) @ ''}''"

definition stringifySchema :: "normSchema \<Rightarrow> string" where
  "stringifySchema n =
     ''{'' @ quoteJSONString ''collections'' @ '':'' @
     stringifyArray (map stringifyCollection (ns_collections n)) @ ''}''"

text \<open>\<^verbatim>\<open>JSON.stringify(normalizeSchema(response.schema))\<close>: the comparison key.\<close>

definition normalizedString :: "(string \<Rightarrow> string \<Rightarrow> int) \<Rightarrow> jsval \<Rightarrow> error + string" where
  "normalizedString lc schema =
     (case normalizeSchema lc schema of Inl e \<Rightarrow> Inl e | Inr n \<Rightarrow> Inr (stringifySchema n))"

section \<open>The declared types (types.ts) and their run-time values\<close>

record Field =
  f_name :: string
  f_type :: string
  f_description :: string
  f_relevantRequirements :: "string list"

record Collection =
  c_name :: string
  c_description :: string
  c_fields :: "Field list"
  c_relevantRequirements :: "string list"

record Schema =
  s_collections :: "Collection list"

record GeminiResponse =
  r_schema :: Schema
  r_justification :: string

definition fieldValue :: "Field \<Rightarrow> jsval" where
  "fieldValue f =
     JObj [(''name'', JStr (f_name f)), (''type'', JStr (f_type f)),
           (''description'', JStr (f_description f)),
           (''relevantRequirements'', JArr (map JStr (f_relevantRequirements f)))]"

definition collectionValue :: "Collection \<Rightarrow> jsval" where
  "collectionValue c =
     JObj [(''name'', JStr (c_name c)), (''description'', JStr (c_description c)),
           (''fields'', JArr (map fieldValue (c_fields c))),
           (''relevantRequirements'', JArr (map JStr (c_relevantRequirements c)))]"

definition schemaValue :: "Schema \<Rightarrow> jsval" where
  "schemaValue s = JObj [(''collections'', JArr (map collectionValue (s_collections s)))]"

definition responseValue :: "GeminiResponse \<Rightarrow> jsval" where
  "responseValue r =
     JObj [(''schema'', schemaValue (r_schema r)), (''justification'', JStr (r_justification r))]"

text \<open>The normaliser's result as a value again (its object literals).\<close>

definition normFieldValue :: "normField \<Rightarrow> jsval" where
  "normFieldValue f = JObj [(''name'', JStr (nf_name f)), (''type'', JStr (nf_type f))]"

definition normCollectionValue :: "normCollection \<Rightarrow> jsval" where
  "normCollectionValue c =
     JObj [(''name'', JStr (nc_name c)), (''fields'', JArr (map normFieldValue (nc_fields c)))]"

definition normSchemaValue :: "normSchema \<Rightarrow> jsval" where
  "normSchemaValue n = JObj [(''collections'', JArr (map normCollectionValue (ns_collections n)))]"

section \<open>Grouping the responses (\<^verbatim>\<open>handleRobustnessTest\<close>, App.tsx)\<close>

text \<open>
  The values of the \<^verbatim>\<open>Map\<close> and the \<^verbatim>\<open>RobustnessGroup\<close> of types.ts, which adds
  \<^verbatim>\<open>count\<close>.  A temperature is only a label here, so its type is a parameter.
\<close>

record 't groupEntry =
  representative :: jsval
  temperatures :: "'t list"

record 't RobustnessGroup = "'t groupEntry" +
  count :: nat

text \<open>
  A \<^verbatim>\<open>Map\<close> keeps its keys in insertion order: a list of entries with distinct keys.
  \<^verbatim>\<open>set\<close> replaces the value of a present key in place and appends a new key.
\<close>

type_synonym 't groupMap = "(string \<times> 't groupEntry) list"

definition mapHas :: "'t groupMap \<Rightarrow> string \<Rightarrow> bool" where
  "mapHas m k = (map_of m k \<noteq> None)"

fun mapSet :: "string \<Rightarrow> 't groupEntry \<Rightarrow> 't groupMap \<Rightarrow> 't groupMap" where
  "mapSet k v [] = [(k, v)]"
| "mapSet k v ((k', v') # m) = (if k' = k then (k, v) # m else (k', v') # mapSet k v m)"

text \<open>\<^verbatim>\<open>groups.get(normalizedString)!.temperatures.push(t)\<close>: the entry is changed in place.\<close>

fun pushTemperature :: "string \<Rightarrow> 't \<Rightarrow> 't groupMap \<Rightarrow> 't groupMap" where
  "pushTemperature k t [] = []"
| "pushTemperature k t ((k', v) # m) =
     (if k' = k then (k', v\<lparr>temperatures := temperatures v @ [t]\<rparr>) # m
      else (k', v) # pushTemperature k t m)"

text \<open>The lines written by \<^verbatim>\<open>console.log\<close>, by their content.\<close>

datatype 't logEntry =
    DebugHeader
  | InvalidOrEmpty 't
  | SchemaAtTemp 't
  | NormalizedJSON string
  | DebugFooter

text \<open>
  The callback of \<^verbatim>\<open>responses.forEach((response, index) => ...)\<close>, on a response and
  its \<^verbatim>\<open>temperatures[index]\<close>.  The state is the map and the console.  An exception of
  \<^verbatim>\<open>normalizeSchema\<close> leaves the loop.
\<close>

definition groupResponse ::
  "(string \<Rightarrow> string \<Rightarrow> int) \<Rightarrow> jsval \<times> 't \<Rightarrow> 't groupMap \<times> 't logEntry list
   \<Rightarrow> error + ('t groupMap \<times> 't logEntry list)" where
  "groupResponse lc pair st =
     (let response = fst pair; t = snd pair; groups = fst st; console = snd st in
      if \<not> truthy response then Inr (groups, console @ [InvalidOrEmpty t])
      else
        (case getProp response ''schema'' of
           Inl e \<Rightarrow> Inl e
         | Inr sv \<Rightarrow>
             if \<not> truthy sv then Inr (groups, console @ [InvalidOrEmpty t])
             else
               (case normalizedString lc sv of
                  Inl e \<Rightarrow> Inl e
                | Inr key \<Rightarrow>
                    let console' = console @ [SchemaAtTemp t, NormalizedJSON key] in
                    if mapHas groups key then Inr (pushTemperature key t groups, console')
                    else Inr (mapSet key \<lparr>representative = response, temperatures = [t]\<rparr> groups,
                              console'))))"

fun forEachE :: "('a \<Rightarrow> 's \<Rightarrow> error + 's) \<Rightarrow> 'a list \<Rightarrow> 's \<Rightarrow> error + 's" where
  "forEachE f [] s = Inr s"
| "forEachE f (x # xs) s = (case f x s of Inl e \<Rightarrow> Inl e | Inr s' \<Rightarrow> forEachE f xs s')"

text \<open>The score, from \<^verbatim>\<open>maxCount\<close>.\<close>

definition scoreOf :: "nat \<Rightarrow> nat" where
  "scoreOf maxCount =
     (if maxCount = 5 then 100
      else if maxCount = 4 then 75
      else if maxCount = 3 then 50
      else if maxCount = 2 then 25
      else 0)"

text \<open>
  \<^verbatim>\<open>Array.from(groups.values()).map(group => ({...group, count: group.temperatures.length}))\<close>
\<close>

definition withCount :: "'t groupEntry \<Rightarrow> 't RobustnessGroup" where
  "withCount g =
     \<lparr>representative = representative g, temperatures = temperatures g,
      count = length (temperatures g)\<rparr>"

definition formatGroups :: "'t groupMap \<Rightarrow> 't RobustnessGroup list" where
  "formatGroups groups =
     arraySort (\<lambda>a b. int (count b) - int (count a)) (map (\<lambda>kv. withCount (snd kv)) groups)"

definition maxCountOf :: "'t RobustnessGroup list \<Rightarrow> nat" where
  "maxCountOf formattedGroups = (case formattedGroups of [] \<Rightarrow> 0 | g # gs \<Rightarrow> count g)"

record 't robustnessResult =
  robustnessComparisonGroups :: "'t RobustnessGroup list"
  robustnessScore :: nat
  console :: "'t logEntry list"

text \<open>The body of the \<^verbatim>\<open>try\<close> block after the \<^verbatim>\<open>await\<close>, on the list of pairs.\<close>

definition groupAndScore ::
  "(string \<Rightarrow> string \<Rightarrow> int) \<Rightarrow> (jsval \<times> 't) list \<Rightarrow> error + 't robustnessResult" where
  "groupAndScore lc pairs =
     (case forEachE (groupResponse lc) pairs ([], [DebugHeader]) of
        Inl e \<Rightarrow> Inl e
      | Inr st \<Rightarrow>
          let formattedGroups = formatGroups (fst st) in
          Inr \<lparr>robustnessComparisonGroups = formattedGroups,
               robustnessScore = scoreOf (maxCountOf formattedGroups),
               console = snd st @ [DebugFooter]\<rparr>)"

text \<open>
  \<^verbatim>\<open>const temperatures = [0.5, 0.6, 0.7, 0.8, 0.9]\<close> and the read \<^verbatim>\<open>temperatures[index]\<close>,
  which is \<^verbatim>\<open>undefined\<close> (\<open>None\<close>) past the end.
\<close>

definition temperatureList :: "rat list" where
  "temperatureList = [5 / 10, 6 / 10, 7 / 10, 8 / 10, 9 / 10]"

definition temperatureAt :: "nat \<Rightarrow> rat option" where
  "temperatureAt index =
     (if index < length temperatureList then Some (temperatureList ! index) else None)"

definition withTemperatures :: "jsval list \<Rightarrow> (jsval \<times> rat option) list" where
  "withTemperatures responses =
     map (\<lambda>index. (responses ! index, temperatureAt index)) [0..<length responses]"

definition handleRobustnessTest ::
  "(string \<Rightarrow> string \<Rightarrow> int) \<Rightarrow> jsval list \<Rightarrow> error + (rat option) robustnessResult" where
  "handleRobustnessTest lc responses = groupAndScore lc (withTemperatures responses)"

section \<open>The highlighter (RequirementHighlighter.tsx)\<close>

text \<open>
  \<^verbatim>\<open>String.prototype.toLowerCase\<close> on code units below 256: the letters A to Z and the
  capital letters 0xC0 to 0xDE (the multiplication sign 0xD7 is no letter) move up by 32.
\<close>

definition upperCaseLetter :: "nat \<Rightarrow> bool" where
  "upperCaseLetter n = ((65 \<le> n \<and> n \<le> 90) \<or> (192 \<le> n \<and> n \<le> 222 \<and> n \<noteq> 215))"

definition toLowerCaseUnit :: "nat \<Rightarrow> nat" where
  "toLowerCaseUnit n = (if upperCaseLetter n then n + 32 else n)"

definition toLowerCaseChar :: "char \<Rightarrow> char" where
  "toLowerCaseChar c = char_of (toLowerCaseUnit (of_char c))"

definition toLowerCase :: "string \<Rightarrow> string" where
  "toLowerCase s = map toLowerCaseChar s"

text \<open>
  The case folding of a regular expression with the flag \<^verbatim>\<open>i\<close> (Canonicalize, without the
  flag \<^verbatim>\<open>u\<close>): the code unit of the upper case form when that is a single code unit.
  The small letters a to z and 0xE0 to 0xFE (the division sign 0xF7 is no letter) move
  down by 32; the micro sign 0xB5 goes to 0x39C and 0xFF to 0x178, outside the range of
  \<^typ>\<open>char\<close>, so the result is a number.
\<close>

definition lowerCaseLetter :: "nat \<Rightarrow> bool" where
  "lowerCaseLetter n = ((97 \<le> n \<and> n \<le> 122) \<or> (224 \<le> n \<and> n \<le> 254 \<and> n \<noteq> 247))"

definition canonicalizeUnit :: "nat \<Rightarrow> nat" where
  "canonicalizeUnit n =
     (if lowerCaseLetter n then n - 32
      else if n = 181 then 924
      else if n = 255 then 376
      else n)"

definition canonicalize :: "char \<Rightarrow> nat" where
  "canonicalize c = canonicalizeUnit (of_char c)"

text \<open>
  \<^verbatim>\<open>const escapeRegExp = (string) => string.replace(/[.*+?^${}()|[\]\\]/g, '\\$&')\<close>:
  a backslash is put before every syntax character of the pattern language.
\<close>

definition isSyntaxCharacter :: "char \<Rightarrow> bool" where
  "isSyntaxCharacter c = (c \<in> set ''.*+?^${}()|[]'' \<or> c = backslash)"

definition escapeRegExp :: "string \<Rightarrow> string" where
  "escapeRegExp s = concat (map (\<lambda>c. if isSyntaxCharacter c then [backslash, c] else [c]) s)"

text \<open>\<^verbatim>\<open>Array.prototype.join\<close>\<close>

fun join :: "string \<Rightarrow> string list \<Rightarrow> string" where
  "join sep [] = []"
| "join sep [x] = x"
| "join sep (x # y # ys) = x @ sep @ join sep (y # ys)"

text \<open>The source of the pattern: \<^verbatim>\<open>`(${uniqueHighlights.map(escapeRegExp).join('|')})`\<close>\<close>

definition regexSource :: "string list \<Rightarrow> string" where
  "regexSource us = ''('' @ join ''|'' (map escapeRegExp us) @ '')''"

text \<open>
  \<^verbatim>\<open>new RegExp(source, 'gi')\<close>, for the patterns that are one group of alternatives,
  each a sequence of escaped syntax characters and of other characters: the pattern is
  then determined by the list of the strings its alternatives match literally (up to
  case, by the flag \<^verbatim>\<open>i\<close>).  The alternatives are tried from the left and the first that
  matches is taken.  \<open>None\<close> stands for every other source, which the model does not
  read; lemma \<open>compilePattern_regexSource\<close> shows that the highlighter builds none.
\<close>

fun parseAlternatives :: "string \<Rightarrow> string \<Rightarrow> string list option" where
  "parseAlternatives [] cur = None"
| "parseAlternatives (c # rest) cur =
     (if c = CHR '')'' then (if rest = [] then Some [cur] else None)
      else if c = CHR ''|'' then map_option ((#) cur) (parseAlternatives rest [])
      else if c = backslash then
        (case rest of
           [] \<Rightarrow> None
         | d # rest' \<Rightarrow>
             if isSyntaxCharacter d then parseAlternatives rest' (cur @ [d]) else None)
      else if isSyntaxCharacter c then None
      else parseAlternatives rest (cur @ [c]))"

definition compilePattern :: "string \<Rightarrow> string list option" where
  "compilePattern src =
     (case src of
        [] \<Rightarrow> None
      | c # rest \<Rightarrow> if c = CHR ''('' then parseAlternatives rest [] else None)"

text \<open>Whether the phrase \<open>h\<close> matches the text \<open>S\<close> at index \<open>q\<close>, up to case.\<close>

definition matchesAt :: "string \<Rightarrow> string \<Rightarrow> nat \<Rightarrow> bool" where
  "matchesAt h S q = (map canonicalize (take (length h) (drop q S)) = map canonicalize h)"

text \<open>A match attempt at index \<open>q\<close> exactly (sticky): the end index of the match.\<close>

definition regexExecAt :: "string list \<Rightarrow> string \<Rightarrow> nat \<Rightarrow> nat option" where
  "regexExecAt alts S q =
     (case find (\<lambda>h. matchesAt h S q) alts of None \<Rightarrow> None | Some h \<Rightarrow> Some (q + length h))"

definition substring :: "string \<Rightarrow> nat \<Rightarrow> nat \<Rightarrow> string" where
  "substring S from to = take (to - from) (drop from S)"

text \<open>
  \<^verbatim>\<open>text.split(regex)\<close> as the standard defines it for a pattern that is one capturing
  group: \<open>p\<close> is the end of the last separator, \<open>q\<close> the index tried next.  A match that
  ends at \<open>p\<close> (an empty match right after a separator) is skipped.  Otherwise the text
  from \<open>p\<close> to \<open>q\<close> and then the captured separator are appended.
\<close>

function splitLoop :: "string list \<Rightarrow> string \<Rightarrow> nat \<Rightarrow> nat \<Rightarrow> string list" where
  "splitLoop alts S p q =
     (if q < length S then
        (case regexExecAt alts S q of
           None \<Rightarrow> splitLoop alts S p (q + 1)
         | Some lastIndex \<Rightarrow>
             (let e = min lastIndex (length S) in
              if e = p then splitLoop alts S p (q + 1)
              else substring S p q # substring S q e # splitLoop alts S e e))
      else [substring S p (length S)])"
  by pat_completeness auto
termination
  by (relation "measures [\<lambda>(alts, S, p, q). length S - q, \<lambda>(alts, S, p, q). if p = q then 0 else 1]")
    (auto simp: regexExecAt_def split: option.splits)

declare splitLoop.simps [simp del]

definition split :: "string list \<Rightarrow> string \<Rightarrow> string list" where
  "split alts S =
     (if S = [] then (if regexExecAt alts S 0 \<noteq> None then [] else [S])
      else splitLoop alts S 0 0)"

text \<open>\<^verbatim>\<open>[...new Set(xs)]\<close>: the first occurrence of every element, in order.\<close>

definition setSpread :: "'a list \<Rightarrow> 'a list" where
  "setSpread xs = foldl (\<lambda>acc x. if x \<in> set acc then acc else acc @ [x]) [] xs"

definition uniqueHighlights :: "jsval list \<Rightarrow> string list" where
  "uniqueHighlights highlights =
     arraySort (\<lambda>a b. int (length b) - int (length a))
       (setSpread (map stringOf (filter isString highlights)))"

text \<open>What is rendered inside the \<^verbatim>\<open>div\<close>: highlighted spans and plain text.\<close>

datatype segment = Marked string | Plain string

fun segmentText :: "segment \<Rightarrow> string" where
  "segmentText (Marked s) = s"
| "segmentText (Plain s) = s"


text \<open>
  The component.  The property \<^verbatim>\<open>highlights\<close> may be absent (\<open>None\<close>).  The result
  is \<open>None\<close> only if the pattern is not one that the model reads.
\<close>

definition RequirementHighlighter :: "string \<Rightarrow> jsval list option \<Rightarrow> segment list option" where
  "RequirementHighlighter text highlights =
     (case highlights of
        None \<Rightarrow> Some [Plain text]
      | Some hs \<Rightarrow>
          if length hs = 0 then Some [Plain text]
          else
            (let us = uniqueHighlights hs in
             case compilePattern (regexSource us) of
               None \<Rightarrow> None
             | Some regex \<Rightarrow>
                 (let parts = split regex text
                  in Some (map (\<lambda>part. if list_ex (\<lambda>h. toLowerCase h = toLowerCase part) us
                                         then Marked part else Plain part)
                             (filter (\<lambda>part. part \<noteq> []) parts)))))"

section \<open>The five calls (\<^verbatim>\<open>runRobustnessTest\<close>, geminiService.ts)\<close>

text \<open>
  A call is pending until it settles: fulfilled with the text of the response, or
  rejected with the message of the error, if it is an \<^verbatim>\<open>Error\<close>.
\<close>

datatype settlement = Fulfil string | Reject "string option"

datatype callState = Pending | Settled settlement

fun isFulfilled :: "callState \<Rightarrow> bool" where
  "isFulfilled (Settled (Fulfil t)) = True"
| "isFulfilled c = False"

fun isRejected :: "callState \<Rightarrow> bool" where
  "isRejected (Settled (Reject e)) = True"
| "isRejected c = False"

fun textOf :: "callState \<Rightarrow> string" where
  "textOf (Settled (Fulfil t)) = t"
| "textOf c = []"

text \<open>
  What the interface ends with: the groups and the score, or \<^verbatim>\<open>robustnessError\<close>,
  which is the message of the error caught (\<open>FailedTypeError\<close>: the message of the
  \<^verbatim>\<open>TypeError\<close> thrown while grouping, which the engine words).
\<close>

datatype testOutcome =
    Succeeded "(rat option) RobustnessGroup list" nat
  | Failed string
  | FailedTypeError

text \<open>
  The \<^verbatim>\<open>catch\<close> of \<^verbatim>\<open>runRobustnessTest\<close> rethrows with these messages, and the
  \<^verbatim>\<open>catch\<close> of \<^verbatim>\<open>handleRobustnessTest\<close> shows them.
\<close>

definition rethrown :: "string option \<Rightarrow> string" where
  "rethrown e =
     (case e of
        Some message \<Rightarrow> ''Failed to run robustness test: '' @ message
      | None \<Rightarrow> ''An unknown error occurred while running the robustness test.'')"

text \<open>
  The callback of \<^verbatim>\<open>responses.map(response => ...)\<close>; \<^verbatim>\<open>JSON.parse\<close> is the parameter
  \<open>jsonParse\<close>, which returns the value or the message of its \<^verbatim>\<open>SyntaxError\<close>.
\<close>

definition parseResponse :: "(string \<Rightarrow> string + jsval) \<Rightarrow> string \<Rightarrow> string + jsval" where
  "parseResponse jsonParse text =
     (let jsonString = trim text in
      if jsonString = [] then Inl ''Received an empty response from the API.''
      else jsonParse jsonString)"

fun parseAll :: "(string \<Rightarrow> string + jsval) \<Rightarrow> string list \<Rightarrow> string + jsval list" where
  "parseAll jsonParse [] = Inr []"
| "parseAll jsonParse (t # ts) =
     (case parseResponse jsonParse t of
        Inl m \<Rightarrow> Inl m
      | Inr v \<Rightarrow> (case parseAll jsonParse ts of Inl m \<Rightarrow> Inl m | Inr vs \<Rightarrow> Inr (v # vs)))"

text \<open>What follows \<^verbatim>\<open>await Promise.all(promises)\<close> once all five texts are there.\<close>

definition afterAllFulfilled ::
  "(string \<Rightarrow> string \<Rightarrow> int) \<Rightarrow> (string \<Rightarrow> string + jsval) \<Rightarrow> string list \<Rightarrow> testOutcome" where
  "afterAllFulfilled lc jsonParse texts =
     (case parseAll jsonParse texts of
        Inl m \<Rightarrow> Failed (rethrown (Some m))
      | Inr parsedResponses \<Rightarrow>
          (case handleRobustnessTest lc parsedResponses of
             Inl e \<Rightarrow> FailedTypeError
           | Inr r \<Rightarrow> Succeeded (robustnessComparisonGroups r) (robustnessScore r)))"

record testState =
  calls :: "callState list"
  outcome :: "testOutcome option"

text \<open>
  \<^verbatim>\<open>temperatures.map(temp => ai.models.generateContent(...))\<close> starts one call per
  temperature before anything is awaited.
\<close>

definition startTest :: testState where
  "startTest = \<lparr>calls = map (\<lambda>temp. Pending) temperatureList, outcome = None\<rparr>"

text \<open>
  Call \<open>i\<close> settles.  \<^verbatim>\<open>Promise.all\<close> rejects with the first rejection of a member and
  is fulfilled when the last member is; the function that awaits it continues in the same
  turn, so the outcome is there when the step is over.  A promise settles once.
\<close>

definition onSettle ::
  "(string \<Rightarrow> string \<Rightarrow> int) \<Rightarrow> (string \<Rightarrow> string + jsval) \<Rightarrow> nat \<times> settlement \<Rightarrow> testState
   \<Rightarrow> testState" where
  "onSettle lc jsonParse ev st =
     (let i = fst ev; r = snd ev in
      if i < length (calls st) \<and> calls st ! i = Pending then
        (let cs = (calls st)[i := Settled r] in
         \<lparr>calls = cs,
          outcome =
            (case outcome st of
               Some out \<Rightarrow> Some out
             | None \<Rightarrow>
                 (case r of
                    Reject e \<Rightarrow> Some (Failed (rethrown e))
                  | Fulfil t \<Rightarrow>
                      if list_all isFulfilled cs
                      then Some (afterAllFulfilled lc jsonParse (map textOf cs))
                      else None))\<rparr>)
      else st)"

definition runEvents ::
  "(string \<Rightarrow> string \<Rightarrow> int) \<Rightarrow> (string \<Rightarrow> string + jsval) \<Rightarrow> (nat \<times> settlement) list \<Rightarrow> testState" where
  "runEvents lc jsonParse evs = foldl (\<lambda>st ev. onSettle lc jsonParse ev st) startTest evs"

text \<open>Sorted with respect to a comparator.\<close>

abbreviation sortedBy :: "('a \<Rightarrow> 'a \<Rightarrow> int) \<Rightarrow> 'a list \<Rightarrow> bool" where
  "sortedBy cmp xs \<equiv> sorted_wrt (\<lambda>a b. cmp a b \<le> 0) xs"

section \<open>Notions the properties are stated with\<close>

text \<open>
  The degenerate inputs: a value that is absent or \<^verbatim>\<open>null\<close>; a collection object whose
  \<^verbatim>\<open>fields\<close> is absent, \<^verbatim>\<open>null\<close> or an array of objects; a schema object whose
  \<^verbatim>\<open>collections\<close> is absent, \<^verbatim>\<open>null\<close> or an array of such collections.  Nothing is
  asked of a \<^verbatim>\<open>name\<close> or a \<^verbatim>\<open>type\<close>.
\<close>

fun isObject :: "jsval \<Rightarrow> bool" where
  "isObject (JObj kvs) = True"
| "isObject v = False"

definition missingOrNull :: "jsval \<Rightarrow> bool" where
  "missingOrNull v = (v = JUndefined \<or> v = JNull)"

definition degenerateCollection :: "jsval \<Rightarrow> bool" where
  "degenerateCollection c =
     (isObject c \<and>
      (case getProp c ''fields'' of
         Inl e \<Rightarrow> False
       | Inr fv \<Rightarrow>
           missingOrNull fv \<or> (case fv of JArr fs \<Rightarrow> list_all isObject fs | _ \<Rightarrow> False)))"

definition degenerateSchema :: "jsval \<Rightarrow> bool" where
  "degenerateSchema s =
     (isObject s \<and>
      (case getProp s ''collections'' of
         Inl e \<Rightarrow> False
       | Inr cv \<Rightarrow>
           missingOrNull cv \<or>
           (case cv of JArr cs \<Rightarrow> list_all degenerateCollection cs | _ \<Rightarrow> False)))"

text \<open>
  The result the specification describes for such an input, written without the
  exceptions of the code.  A property of an object is \<^verbatim>\<open>undefined\<close> when absent; a name
  or a type that is a string is trimmed and anything else becomes the empty string; a
  sequence that is an array has its elements and anything else has none.  Every field
  is kept with its name and type, every collection with its name and its fields, fields
  and collections sorted by name.
\<close>

definition propertyOf :: "jsval \<Rightarrow> string \<Rightarrow> jsval" where
  "propertyOf v k =
     (case v of
        JObj kvs \<Rightarrow> (case map_of kvs k of None \<Rightarrow> JUndefined | Some x \<Rightarrow> x)
      | _ \<Rightarrow> JUndefined)"

definition trimmedOrEmpty :: "jsval \<Rightarrow> string" where
  "trimmedOrEmpty v = (case v of JStr s \<Rightarrow> trim s | _ \<Rightarrow> [])"

definition elementsOrNone :: "jsval \<Rightarrow> jsval list" where
  "elementsOrNone v = (case v of JArr xs \<Rightarrow> xs | _ \<Rightarrow> [])"

definition expectedField :: "jsval \<Rightarrow> normField" where
  "expectedField f =
     \<lparr>nf_name = trimmedOrEmpty (propertyOf f ''name''),
      nf_type = trimmedOrEmpty (propertyOf f ''type'')\<rparr>"

definition expectedCollection :: "(string \<Rightarrow> string \<Rightarrow> int) \<Rightarrow> jsval \<Rightarrow> normCollection" where
  "expectedCollection lc c =
     \<lparr>nc_name = trimmedOrEmpty (propertyOf c ''name''),
      nc_fields =
        arraySort (\<lambda>a b. lc (nf_name a) (nf_name b))
          (map expectedField (elementsOrNone (propertyOf c ''fields'')))\<rparr>"

definition expectedSchema :: "(string \<Rightarrow> string \<Rightarrow> int) \<Rightarrow> jsval \<Rightarrow> normSchema" where
  "expectedSchema lc s =
     \<lparr>ns_collections =
        arraySort (\<lambda>a b. lc (nc_name a) (nc_name b))
          (map (expectedCollection lc) (elementsOrNone (propertyOf s ''collections'')))\<rparr>"

text \<open>
  The normaliser read at the declared types: what \<^verbatim>\<open>normalizeSchema\<close> computes for the
  value of a \<open>Schema\<close> (lemma \<open>normalizeSchema_schemaValue\<close>).
\<close>

definition normFieldOf :: "Field \<Rightarrow> normField" where
  "normFieldOf f = \<lparr>nf_name = trim (f_name f), nf_type = trim (f_type f)\<rparr>"

definition normCollectionOf :: "(string \<Rightarrow> string \<Rightarrow> int) \<Rightarrow> Collection \<Rightarrow> normCollection" where
  "normCollectionOf lc c =
     \<lparr>nc_name = trim (c_name c),
      nc_fields = arraySort (\<lambda>a b. lc (nf_name a) (nf_name b)) (map normFieldOf (c_fields c))\<rparr>"

definition normSchemaOf :: "(string \<Rightarrow> string \<Rightarrow> int) \<Rightarrow> Schema \<Rightarrow> normSchema" where
  "normSchemaOf lc s =
     \<lparr>ns_collections =
        arraySort (\<lambda>a b. lc (nc_name a) (nc_name b)) (map (normCollectionOf lc) (s_collections s))\<rparr>"

text \<open>
  A normal form: names and types trimmed, fields and collections sorted by name.
\<close>

definition normalForm :: "(string \<Rightarrow> string \<Rightarrow> int) \<Rightarrow> normSchema \<Rightarrow> bool" where
  "normalForm lc n =
     (sortedBy (\<lambda>a b. lc (nc_name a) (nc_name b)) (ns_collections n) \<and>
      (\<forall>c \<in> set (ns_collections n).
         trim (nc_name c) = nc_name c \<and>
         sortedBy (\<lambda>a b. lc (nf_name a) (nf_name b)) (nc_fields c) \<and>
         (\<forall>f \<in> set (nc_fields c). trim (nf_name f) = nf_name f \<and> trim (nf_type f) = nf_type f)))"

text \<open>
  A schema reconstructed from a normalised one: the same collections with the same
  names and the same fields (names and types), in the same order; descriptions and
  requirement lists, which the normalised value does not have, are free.
\<close>

definition reconstructs :: "Schema \<Rightarrow> normSchema \<Rightarrow> bool" where
  "reconstructs s n =
     list_all2
       (\<lambda>c nc. c_name c = nc_name nc \<and>
          list_all2 (\<lambda>f nf. f_name f = nf_name nf \<and> f_type f = nf_type nf)
            (c_fields c) (nc_fields nc))
       (s_collections s) (ns_collections n)"

text \<open>
  The structure of a schema as the specification words it: the set of its collection
  names and, for a collection, the set of its (name, type) pairs, all trimmed.  Two
  schemas have the same structure when the name sets agree and collections of the same
  name have the same pairs.
\<close>

definition collectionNames :: "Schema \<Rightarrow> string set" where
  "collectionNames s = (\<lambda>c. trim (c_name c)) ` set (s_collections s)"

definition fieldPairs :: "Collection \<Rightarrow> (string \<times> string) set" where
  "fieldPairs c = (\<lambda>f. (trim (f_name f), trim (f_type f))) ` set (c_fields c)"

definition sameStructure :: "Schema \<Rightarrow> Schema \<Rightarrow> bool" where
  "sameStructure s1 s2 =
     (collectionNames s1 = collectionNames s2 \<and>
      (\<forall>c1 \<in> set (s_collections s1). \<forall>c2 \<in> set (s_collections s2).
         trim (c_name c1) = trim (c_name c2) \<longrightarrow> fieldPairs c1 = fieldPairs c2))"

text \<open>
  Names no two of which the comparator takes for equal; in particular no name occurs
  twice.  A schema has unique names when this holds of its trimmed collection names and,
  in every collection, of the trimmed field names.
\<close>

fun untied :: "(string \<Rightarrow> string \<Rightarrow> int) \<Rightarrow> string list \<Rightarrow> bool" where
  "untied lc [] = True"
| "untied lc (x # xs) = (list_all (\<lambda>y. lc x y \<noteq> 0) xs \<and> untied lc xs)"

definition uniqueNames :: "(string \<Rightarrow> string \<Rightarrow> int) \<Rightarrow> Schema \<Rightarrow> bool" where
  "uniqueNames lc s =
     (untied lc (map (\<lambda>c. trim (c_name c)) (s_collections s)) \<and>
      list_all (\<lambda>c. untied lc (map (\<lambda>f. trim (f_name f)) (c_fields c))) (s_collections s))"

text \<open>
  A field and a collection without descriptive text, to write example schemas with.
\<close>

definition mkField :: "string \<Rightarrow> string \<Rightarrow> Field" where
  "mkField n t = \<lparr>f_name = n, f_type = t, f_description = [], f_relevantRequirements = []\<rparr>"

definition mkCollection :: "string \<Rightarrow> Field list \<Rightarrow> Collection" where
  "mkCollection n fs =
     \<lparr>c_name = n, c_description = [], c_fields = fs, c_relevantRequirements = []\<rparr>"

text \<open>
  A schema permuted: its collections in another order, the fields of each in another
  order, nothing else changed.
\<close>

definition permutedCollection :: "Collection \<Rightarrow> Collection \<Rightarrow> bool" where
  "permutedCollection c c' =
     (c_name c' = c_name c \<and> c_description c' = c_description c \<and>
      c_relevantRequirements c' = c_relevantRequirements c \<and>
      mset (c_fields c') = mset (c_fields c))"

definition permutedSchema :: "Schema \<Rightarrow> Schema \<Rightarrow> bool" where
  "permutedSchema s s' =
     (\<exists>cs. mset cs = mset (s_collections s) \<and> list_all2 permutedCollection cs (s_collections s'))"

text \<open>
  A response whose schema has one collection of the given name, with one field; the note
  is its justification.
\<close>

definition sampleResponse :: "string \<Rightarrow> string \<Rightarrow> jsval" where
  "sampleResponse collection note =
     responseValue
       \<lparr>r_schema = \<lparr>s_collections = [mkCollection collection [mkField ''id'' ''String'']]\<rparr>,
        r_justification = note\<rparr>"

text \<open>
  A stand-in for \<^verbatim>\<open>JSON.parse\<close> to run the model with: one text is rejected with the
  message of a \<^verbatim>\<open>SyntaxError\<close>, one yields a response whose \<^verbatim>\<open>collections\<close> is a
  number, and any other text yields the sample response for the collection it names.
\<close>

definition sampleParse :: "string \<Rightarrow> string + jsval" where
  "sampleParse s =
     (if s = ''unparsable'' then Inl ''Unexpected token u in JSON at position 0''
      else if s = ''collections: 5'' then Inr (JObj [(''schema'', JObj [(''collections'', JNum 5)])])
      else Inr (sampleResponse s []))"

text \<open>A response whose schema is the one collection \<^verbatim>\<open>users\<close> with the given fields.\<close>

definition responseWith :: "Field list \<Rightarrow> GeminiResponse" where
  "responseWith fs =
     \<lparr>r_schema = \<lparr>s_collections = [mkCollection ''users'' fs]\<rparr>, r_justification = []\<rparr>"

text \<open>
  What the guard and the key computation of the callback make of a response: \<open>None\<close>
  when the response is skipped as invalid, otherwise the result of computing its key
  (an exception or the normalised string).
\<close>

definition responseKey :: "(string \<Rightarrow> string \<Rightarrow> int) \<Rightarrow> jsval \<Rightarrow> (error + string) option" where
  "responseKey lc response =
     (if \<not> truthy response then None
      else
        (case getProp response ''schema'' of
           Inl e \<Rightarrow> Some (Inl e)
         | Inr sv \<Rightarrow> if \<not> truthy sv then None else Some (normalizedString lc sv)))"

text \<open>A response whose schema is present and has a key, and that key.\<close>

definition hasKey :: "(string \<Rightarrow> string \<Rightarrow> int) \<Rightarrow> jsval \<Rightarrow> bool" where
  "hasKey lc response = (case responseKey lc response of Some (Inr k) \<Rightarrow> True | _ \<Rightarrow> False)"

definition keyOf :: "(string \<Rightarrow> string \<Rightarrow> int) \<Rightarrow> jsval \<Rightarrow> string" where
  "keyOf lc response = (case responseKey lc response of Some (Inr k) \<Rightarrow> k | _ \<Rightarrow> [])"

text \<open>
  The grouping in the words of the specification.  The pairs with key \<open>k\<close>, in the order
  processed; the group of \<open>k\<close>: its representative is the first response with that key,
  its temperatures are those of the pairs with that key, its count is their number; and
  the groups in the order in which their keys were first met.
\<close>

definition pairsWithKey :: "(string \<Rightarrow> string \<Rightarrow> int) \<Rightarrow> (jsval \<times> 't) list \<Rightarrow> string \<Rightarrow> (jsval \<times> 't) list" where
  "pairsWithKey lc pairs k = filter (\<lambda>p. keyOf lc (fst p) = k) pairs"

definition groupOfKey :: "(string \<Rightarrow> string \<Rightarrow> int) \<Rightarrow> (jsval \<times> 't) list \<Rightarrow> string \<Rightarrow> 't RobustnessGroup" where
  "groupOfKey lc pairs k =
     \<lparr>representative = fst (hd (pairsWithKey lc pairs k)),
      temperatures = map snd (pairsWithKey lc pairs k),
      count = length (pairsWithKey lc pairs k)\<rparr>"

definition groupsInInsertionOrder ::
  "(string \<Rightarrow> string \<Rightarrow> int) \<Rightarrow> (jsval \<times> 't) list \<Rightarrow> 't RobustnessGroup list" where
  "groupsInInsertionOrder lc pairs =
     map (groupOfKey lc pairs) (setSpread (map (\<lambda>p. keyOf lc (fst p)) pairs))"

text \<open>The console lines that report a discarded pair.\<close>

fun isInvalidEntry :: "'t logEntry \<Rightarrow> bool" where
  "isInvalidEntry (InvalidOrEmpty t) = True"
| "isInvalidEntry e = False"

text \<open>What the interface keeps of a result: the groups and the score.\<close>

definition groupsAndScoreOf :: "'t robustnessResult \<Rightarrow> 't RobustnessGroup list \<times> nat" where
  "groupsAndScoreOf res = (robustnessComparisonGroups res, robustnessScore res)"

text \<open>
  For the proofs: one step of the loop on the map alone, for a response that has a key,
  and the entry the map holds for a key.
\<close>

definition stepMap :: "(string \<Rightarrow> string \<Rightarrow> int) \<Rightarrow> 't groupMap \<Rightarrow> jsval \<times> 't \<Rightarrow> 't groupMap" where
  "stepMap lc m p =
     (if mapHas m (keyOf lc (fst p)) then pushTemperature (keyOf lc (fst p)) (snd p) m
      else mapSet (keyOf lc (fst p)) \<lparr>representative = fst p, temperatures = [snd p]\<rparr> m)"

definition entryOfKey :: "(string \<Rightarrow> string \<Rightarrow> int) \<Rightarrow> (jsval \<times> 't) list \<Rightarrow> string \<Rightarrow> 't groupEntry" where
  "entryOfKey lc pairs k =
     \<lparr>representative = fst (hd (pairsWithKey lc pairs k)),
      temperatures = map snd (pairsWithKey lc pairs k)\<rparr>"



text \<open>
  For the proofs: the alternatives of the pattern built from a list of phrases, and the
  segments the component renders with them.
\<close>

definition patternAlternatives :: "string list \<Rightarrow> string list" where
  "patternAlternatives us = (if us = [] then [[]] else us)"

definition highlighted :: "string \<Rightarrow> jsval list option \<Rightarrow> segment list" where
  "highlighted text highlights =
     (case highlights of
        None \<Rightarrow> [Plain text]
      | Some hs \<Rightarrow>
          if length hs = 0 then [Plain text]
          else
            (let us = uniqueHighlights hs;
                 parts = split (patternAlternatives us) text
             in map (\<lambda>part. if list_ex (\<lambda>h. toLowerCase h = toLowerCase part) us
                             then Marked part else Plain part)
                  (filter (\<lambda>part. part \<noteq> []) parts)))"

text \<open>
  For the proofs: what holds of the test in every state.  When a call has been rejected
  the outcome is the failure of a rejected call; otherwise, when all calls are
  fulfilled, it is what the continuation makes of the five texts; otherwise there is no
  outcome yet.
\<close>

definition testInvariant ::
  "(string \<Rightarrow> string \<Rightarrow> int) \<Rightarrow> (string \<Rightarrow> string + jsval) \<Rightarrow> testState \<Rightarrow> bool" where
  "testInvariant lc jsonParse st =
     (length (calls st) = 5 \<and>
      (if list_ex isRejected (calls st)
       then (\<exists>e. Settled (Reject e) \<in> set (calls st) \<and> outcome st = Some (Failed (rethrown e)))
       else if list_all isFulfilled (calls st)
       then outcome st = Some (afterAllFulfilled lc jsonParse (map textOf (calls st)))
       else outcome st = None))"

section \<open>Facts about the built-ins\<close>

subsection \<open>The comparator by code units is consistent\<close>

lemma codeUnitCompare_refl: "codeUnitCompare a a = 0"
  by (induction a) auto

lemma codeUnitCompare_sign: "(codeUnitCompare a b < 0) = (0 < codeUnitCompare b a)"
  by (induction a b rule: codeUnitCompare.induct) auto

lemma codeUnitCompare_trans:
  "codeUnitCompare a b \<le> 0 \<Longrightarrow> codeUnitCompare b c \<le> 0 \<Longrightarrow> codeUnitCompare a c \<le> 0"
proof (induction a b arbitrary: c rule: codeUnitCompare.induct)
  case 1
  then show ?case by simp
next
  case (2 y ys)
  then show ?case by (cases c) auto
next
  case (3 x xs)
  then show ?case by simp
next
  case (4 x xs y ys)
  show ?case
  proof (cases c)
    case Nil
    then show ?thesis using 4 by simp
  next
    case (Cons z zs)
    show ?thesis
    proof (cases "(of_char x :: nat) < of_char y")
      case True
      then show ?thesis using 4(3) Cons by (auto split: if_splits)
    next
      case False
      with 4(2) have xy: "(of_char x :: nat) = of_char y" and r: "codeUnitCompare xs ys \<le> 0"
        by (auto split: if_splits)
      show ?thesis
      proof (cases "(of_char y :: nat) < of_char z")
        case True
        then show ?thesis using xy Cons by simp
      next
        case F2: False
        with 4(3) Cons have yz: "(of_char y :: nat) = of_char z" and r2: "codeUnitCompare ys zs \<le> 0"
          by (auto split: if_splits)
        have "codeUnitCompare xs zs \<le> 0" using 4(1)[OF False _ r r2] xy by simp
        then show ?thesis using xy yz Cons by simp
      qed
    qed
  qed
qed

lemma codeUnitCompare_consistent: "consistentComparator codeUnitCompare"
  unfolding consistentComparator_def
  using codeUnitCompare_refl codeUnitCompare_sign codeUnitCompare_trans by blast

lemma codeUnitCompare_eq: "codeUnitCompare a b = 0 \<Longrightarrow> a = b"
  by (induction a b rule: codeUnitCompare.induct) (auto split: if_splits)

subsection \<open>Trimming\<close>

lemma trimStart_Nil [simp]: "trimStart [] = []" by (simp add: trimStart_def)
lemma trimEnd_Nil [simp]: "trimEnd [] = []" by (simp add: trimEnd_def)
lemma trim_Nil [simp]: "trim [] = []" by (simp add: trim_def)

lemma trimEnd_idem: "trimEnd (trimEnd s) = trimEnd s"
  by (simp add: trimEnd_def dropWhile_idem)

lemma trimEnd_prefix: "\<exists>r. s = trimEnd s @ r"
proof -
  have "rev s = takeWhile isWhiteSpace (rev s) @ dropWhile isWhiteSpace (rev s)" by simp
  then have "s = rev (dropWhile isWhiteSpace (rev s)) @ rev (takeWhile isWhiteSpace (rev s))"
    by (metis rev_append rev_rev_ident)
  then show ?thesis unfolding trimEnd_def by blast
qed

lemma trimStart_fix: "s = [] \<or> \<not> isWhiteSpace (hd s) \<Longrightarrow> trimStart s = s"
  by (cases s) (auto simp: trimStart_def)

lemma trimStart_head: "trimStart s = [] \<or> \<not> isWhiteSpace (hd (trimStart s))"
  unfolding trimStart_def by (metis hd_dropWhile)

lemma trim_idem: "trim (trim s) = trim s"
proof -
  define t where "t = trimStart s"
  have ht: "t = [] \<or> \<not> isWhiteSpace (hd t)" unfolding t_def by (rule trimStart_head)
  obtain r where r: "t = trimEnd t @ r" using trimEnd_prefix by blast
  have "trimEnd t = [] \<or> \<not> isWhiteSpace (hd (trimEnd t))"
  proof (cases "trimEnd t = []")
    case True then show ?thesis by simp
  next
    case False
    then have "hd t = hd (trimEnd t)" using r by (metis hd_append2)
    moreover have "t \<noteq> []" using False r by auto
    ultimately show ?thesis using ht by simp
  qed
  then have "trimStart (trimEnd t) = trimEnd t" by (rule trimStart_fix)
  then show ?thesis by (simp add: trim_def t_def[symmetric] trimEnd_idem)
qed

lemma safeString_JStr [simp]: "safeString (JStr s) = trim s"
  by (simp add: safeString_def)

lemma normalizeField_fieldValue:
  "normalizeField (fieldValue f) = Inr \<lparr>nf_name = trim (f_name f), nf_type = trim (f_type f)\<rparr>"
  by (simp add: normalizeField_def fieldValue_def)

lemma mapE_total: "(\<And>x. x \<in> set xs \<Longrightarrow> f x = Inr (g x)) \<Longrightarrow> mapE f xs = Inr (map g xs)"
  by (induction xs) auto

subsection \<open>Sorting\<close>

lemma mset_insertSorted: "mset (insertSorted cmp x xs) = add_mset x (mset xs)"
  by (induction xs) auto

lemma mset_arraySort: "mset (arraySort cmp xs) = mset xs"
  by (induction xs) (auto simp: arraySort_def mset_insertSorted)

lemma set_arraySort: "set (arraySort cmp xs) = set xs"
  by (metis mset_arraySort set_mset_mset)

lemma length_arraySort: "length (arraySort cmp xs) = length xs"
  by (metis mset_arraySort size_mset)

lemma arraySort_Cons: "arraySort cmp (x # xs) = insertSorted cmp x (arraySort cmp xs)"
  by (simp add: arraySort_def)

lemma arraySort_Nil [simp]: "arraySort cmp [] = []"
  by (simp add: arraySort_def)

lemma consistent_total: "consistentComparator cmp \<Longrightarrow> \<not> cmp a b \<le> 0 \<Longrightarrow> cmp b a \<le> 0"
  unfolding consistentComparator_def by (metis less_le_not_le linorder_not_le)

lemma consistent_trans:
  "consistentComparator cmp \<Longrightarrow> cmp a b \<le> 0 \<Longrightarrow> cmp b c \<le> 0 \<Longrightarrow> cmp a c \<le> 0"
  unfolding consistentComparator_def by blast

lemma consistent_refl: "consistentComparator cmp \<Longrightarrow> cmp a a = 0"
  unfolding consistentComparator_def by blast

lemma consistent_antisym:
  "consistentComparator cmp \<Longrightarrow> cmp a b \<le> 0 \<Longrightarrow> cmp b a \<le> 0 \<Longrightarrow> cmp a b = 0"
  unfolding consistentComparator_def by (metis less_le_not_le order_le_less)

lemma sortedBy_insertSorted:
  assumes "consistentComparator cmp" "sortedBy cmp xs"
  shows "sortedBy cmp (insertSorted cmp x xs)"
  using assms(2)
proof (induction xs)
  case Nil
  then show ?case by simp
next
  case (Cons y ys)
  show ?case
  proof (cases "cmp x y \<le> 0")
    case True
    then have "\<forall>z\<in>set ys. cmp x z \<le> 0"
      using Cons.prems consistent_trans[OF assms(1)] by auto
    then show ?thesis using True Cons.prems by simp
  next
    case False
    then have "cmp y x \<le> 0" using consistent_total[OF assms(1)] by blast
    then have "\<forall>z\<in>set (insertSorted cmp x ys). cmp y z \<le> 0"
      using Cons.prems by (metis mset_insertSorted set_mset_mset set_mset_add_mset_insert insert_iff sorted_wrt.simps(2))
    then show ?thesis using False Cons by simp
  qed
qed

lemma sortedBy_arraySort: "consistentComparator cmp \<Longrightarrow> sortedBy cmp (arraySort cmp xs)"
  by (induction xs) (auto simp: arraySort_Cons sortedBy_insertSorted)

lemma arraySort_sorted_id: "sortedBy cmp xs \<Longrightarrow> arraySort cmp xs = xs"
proof (induction xs)
  case Nil
  then show ?case by simp
next
  case (Cons x xs)
  then have "arraySort cmp xs = xs" by simp
  then show ?case using Cons.prems by (cases xs) (auto simp: arraySort_Cons)
qed

lemma arraySort_idem:
  "consistentComparator cmp \<Longrightarrow> arraySort cmp (arraySort cmp xs) = arraySort cmp xs"
  by (simp add: arraySort_sorted_id sortedBy_arraySort)

lemma sortedBy_unique:
  assumes c: "consistentComparator cmp"
  shows "sortedBy cmp xs \<Longrightarrow> sortedBy cmp ys \<Longrightarrow> mset xs = mset ys \<Longrightarrow>
         (\<And>a b. a \<in> set xs \<Longrightarrow> b \<in> set xs \<Longrightarrow> cmp a b = 0 \<Longrightarrow> a = b) \<Longrightarrow> xs = ys"
proof (induction xs arbitrary: ys)
  case Nil
  then show ?case by simp
next
  case (Cons x xs)
  then obtain y ys' where ys: "ys = y # ys'" by (cases ys) auto
  have sets: "set (x # xs) = set (y # ys')" using Cons.prems(3) ys by (metis set_mset_mset)
  have xy: "cmp x y \<le> 0"
  proof (cases "y = x")
    case True then show ?thesis using consistent_refl[OF c] by simp
  next
    case False
    then have "y \<in> set xs" using sets by auto
    then show ?thesis using Cons.prems(1) by auto
  qed
  have yx: "cmp y x \<le> 0"
  proof (cases "y = x")
    case True then show ?thesis using consistent_refl[OF c] by simp
  next
    case False
    then have "x \<in> set ys'" using sets by auto
    then show ?thesis using Cons.prems(2) ys by auto
  qed
  have "cmp x y = 0" using consistent_antisym[OF c xy yx] .
  moreover have "y \<in> set (x # xs)" using sets by simp
  ultimately have e: "x = y" using Cons.prems(4)[of x y] by simp
  have "xs = ys'"
  proof (rule Cons.IH)
    show "sortedBy cmp xs" using Cons.prems(1) by simp
    show "sortedBy cmp ys'" using Cons.prems(2) ys by simp
    show "mset xs = mset ys'" using Cons.prems(3) ys e by simp
    show "\<And>a b. a \<in> set xs \<Longrightarrow> b \<in> set xs \<Longrightarrow> cmp a b = 0 \<Longrightarrow> a = b"
      using Cons.prems(4) by simp
  qed
  then show ?case using e ys by simp
qed

lemma arraySort_permutation:
  assumes "consistentComparator cmp" "mset xs = mset ys"
    and "\<And>a b. a \<in> set xs \<Longrightarrow> b \<in> set xs \<Longrightarrow> cmp a b = 0 \<Longrightarrow> a = b"
  shows "arraySort cmp xs = arraySort cmp ys"
proof (rule sortedBy_unique[OF assms(1)])
  show "sortedBy cmp (arraySort cmp xs)" by (rule sortedBy_arraySort[OF assms(1)])
  show "sortedBy cmp (arraySort cmp ys)" by (rule sortedBy_arraySort[OF assms(1)])
  show "mset (arraySort cmp xs) = mset (arraySort cmp ys)" by (simp add: mset_arraySort assms(2))
  show "\<And>a b. a \<in> set (arraySort cmp xs) \<Longrightarrow> b \<in> set (arraySort cmp xs) \<Longrightarrow> cmp a b = 0 \<Longrightarrow> a = b"
    using assms(3) by (simp add: set_arraySort)
qed

lemma consistent_on_key:
  "consistentComparator lc \<Longrightarrow> consistentComparator (\<lambda>a b. lc (k a) (k b))"
  unfolding consistentComparator_def by blast

subsection \<open>The encoding determines the normalised value\<close>

lemma hexDigit_inj: "a < 16 \<Longrightarrow> b < 16 \<Longrightarrow> hexDigit a = hexDigit b \<Longrightarrow> a = b"
proof -
  assume a: "a < 16" and b: "b < 16" and e: "hexDigit a = hexDigit b"
  have d: "distinct ''0123456789abcdef''" by simp
  have l: "length ''0123456789abcdef'' = 16" by simp
  show "a = b" using nth_eq_iff_index_eq[OF d, of a b] a b e l unfolding hexDigit_def by simp
qed

lemma hex_pair_inj:
  assumes "hexDigit (of_char c div 16) = hexDigit (of_char c' div 16)"
    and "hexDigit (of_char c mod 16) = hexDigit (of_char c' mod 16)"
    and "(of_char c :: nat) < 32" "(of_char c' :: nat) < 32"
  shows "c = c'"
proof -
  have "(of_char c :: nat) div 16 = of_char c' div 16"
    using assms(1,3,4) by (intro hexDigit_inj) auto
  moreover have "(of_char c :: nat) mod 16 = of_char c' mod 16"
    using assms(2) by (intro hexDigit_inj) auto
  ultimately have "(of_char c :: nat) = of_char c'"
    by (metis div_mult_mod_eq)
  then show ?thesis by simp
qed

lemma quoteJSONChar_hd: "quoteJSONChar c \<noteq> [] \<and> hd (quoteJSONChar c) \<noteq> dquote"
  by (simp add: quoteJSONChar_def dquote_def backslash_def)

lemma quoteJSONChar_prefix_free:
  assumes "quoteJSONChar c @ r = quoteJSONChar c' @ r'"
  shows "c = c' \<and> r = r'"
  using assms unfolding quoteJSONChar_def dquote_def backslash_def
  by (auto split: if_splits dest: hex_pair_inj)


lemma quoted_body_inj:
  "concat (map quoteJSONChar s) @ dquote # r = concat (map quoteJSONChar s') @ dquote # r'
   \<Longrightarrow> s = s' \<and> r = r'"
proof (induction s arbitrary: s')
  case Nil
  show ?case
  proof (cases s')
    case Nil
    then show ?thesis using Nil.prems by simp
  next
    case (Cons c' t')
    then have "dquote # r = quoteJSONChar c' @ (concat (map quoteJSONChar t') @ dquote # r')"
      using Nil.prems by simp
    then have "hd (quoteJSONChar c') = dquote"
      using quoteJSONChar_hd[of c'] by (metis hd_append2 list.sel(1))
    then show ?thesis using quoteJSONChar_hd[of c'] by simp
  qed
next
  case (Cons c t)
  show ?case
  proof (cases s')
    case Nil
    then have "quoteJSONChar c @ (concat (map quoteJSONChar t) @ dquote # r) = dquote # r'"
      using Cons.prems by simp
    then have "hd (quoteJSONChar c) = dquote"
      using quoteJSONChar_hd[of c] by (metis hd_append2 list.sel(1))
    then show ?thesis using quoteJSONChar_hd[of c] by simp
  next
    case (Cons c' t')
    then have "quoteJSONChar c @ (concat (map quoteJSONChar t) @ dquote # r)
             = quoteJSONChar c' @ (concat (map quoteJSONChar t') @ dquote # r')"
      using Cons.prems by simp
    then have "c = c'" and
      "concat (map quoteJSONChar t) @ dquote # r = concat (map quoteJSONChar t') @ dquote # r'"
      using quoteJSONChar_prefix_free by blast+
    then show ?thesis using Cons.IH[of t'] Cons by simp
  qed
qed

lemma quoteJSONString_inj:
  "quoteJSONString s @ r = quoteJSONString s' @ r' \<Longrightarrow> s = s' \<and> r = r'"
  unfolding quoteJSONString_def using quoted_body_inj[of s r s' r'] by simp

lemma stringifyField_inj:
  assumes "stringifyField f @ r = stringifyField f' @ r'"
  shows "f = f' \<and> r = r'"
proof -
  from assms have
    "quoteJSONString (nf_name f) @ ('','' @ quoteJSONString ''type'' @ '':'' @ quoteJSONString (nf_type f) @ ''}'' @ r)
   = quoteJSONString (nf_name f') @ ('','' @ quoteJSONString ''type'' @ '':'' @ quoteJSONString (nf_type f') @ ''}'' @ r')"
    by (simp add: stringifyField_def)
  from quoteJSONString_inj[OF this] have n: "nf_name f = nf_name f'"
    and "quoteJSONString (nf_type f) @ (''}'' @ r) = quoteJSONString (nf_type f') @ (''}'' @ r')"
    by simp_all
  from quoteJSONString_inj[OF this(2)] have "nf_type f = nf_type f'" and "r = r'" by simp_all
  with n show ?thesis by simp
qed

lemma stringifyField_hd: "hd (stringifyField f @ r) = CHR ''{''"
  by (simp add: stringifyField_def)

lemma joinComma_Cons: "joinComma (x # xs) = x @ concat (map (\<lambda>y. '','' @ y) xs)"
  by (induction xs arbitrary: x) auto

lemma array_tail_inj:
  assumes inj: "\<And>x y r r'. enc x @ r = enc y @ r' \<Longrightarrow> x = y \<and> r = r'"
  shows "concat (map (\<lambda>y. '','' @ y) (map enc xs)) @ '']'' @ r
       = concat (map (\<lambda>y. '','' @ y) (map enc ys)) @ '']'' @ r' \<Longrightarrow> xs = ys \<and> r = r'"
proof (induction xs arbitrary: ys)
  case Nil
  then show ?case by (cases ys) auto
next
  case (Cons x xs)
  show ?case
  proof (cases ys)
    case Nil
    then show ?thesis using Cons.prems by simp
  next
    case (Cons y ys')
    then have "enc x @ (concat (map (\<lambda>y. '','' @ y) (map enc xs)) @ '']'' @ r)
             = enc y @ (concat (map (\<lambda>y. '','' @ y) (map enc ys')) @ '']'' @ r')"
      using Cons.prems by simp
    from inj[OF this] show ?thesis using Cons.IH[of ys'] Cons by simp
  qed
qed

lemma stringifyArray_inj:
  assumes inj: "\<And>x y r r'. enc x @ r = enc y @ r' \<Longrightarrow> x = y \<and> r = r'"
    and hd: "\<And>x r. hd (enc x @ r) = CHR ''{''"
    and e: "stringifyArray (map enc xs) @ r = stringifyArray (map enc ys) @ r'"
  shows "xs = ys \<and> r = r'"
proof -
  have ne: "enc x @ q \<noteq> CHR '']'' # q'" for x q q'
  proof
    assume "enc x @ q = CHR '']'' # q'"
    then have "hd (enc x @ q) = CHR '']''" by simp
    then show False using hd[of x q] by simp
  qed
  from e have e': "joinComma (map enc xs) @ CHR '']'' # r = joinComma (map enc ys) @ CHR '']'' # r'"
    by (simp add: stringifyArray_def)
  show ?thesis
  proof (cases xs)
    case Nil
    show ?thesis
    proof (cases ys)
      case Nil
      then show ?thesis using e' \<open>xs = []\<close> by simp
    next
      case (Cons y ys')
      then have "enc y @ (concat (map (\<lambda>y. '','' @ y) (map enc ys')) @ CHR '']'' # r') = CHR '']'' # r"
        using e' \<open>xs = []\<close> by (simp add: joinComma_Cons)
      then show ?thesis using ne by blast
    qed
  next
    case (Cons x xs')
    show ?thesis
    proof (cases ys)
      case Nil
      then have "enc x @ (concat (map (\<lambda>y. '','' @ y) (map enc xs')) @ CHR '']'' # r) = CHR '']'' # r'"
        using e' Cons by (simp add: joinComma_Cons)
      then show ?thesis using ne by blast
    next
      case c2: (Cons y ys')
      then have "enc x @ (concat (map (\<lambda>y. '','' @ y) (map enc xs')) @ '']'' @ r)
               = enc y @ (concat (map (\<lambda>y. '','' @ y) (map enc ys')) @ '']'' @ r')"
        using e' Cons by (simp add: joinComma_Cons)
      from inj[OF this] have "x = y" and
        "concat (map (\<lambda>y. '','' @ y) (map enc xs')) @ '']'' @ r
         = concat (map (\<lambda>y. '','' @ y) (map enc ys')) @ '']'' @ r'" by simp_all
      from array_tail_inj[of enc, OF inj this(2)] show ?thesis using \<open>x = y\<close> Cons c2 by simp
    qed
  qed
qed

lemma stringifyCollection_inj:
  assumes "stringifyCollection c @ r = stringifyCollection c' @ r'"
  shows "c = c' \<and> r = r'"
proof -
  from assms have
    "quoteJSONString (nc_name c) @ ('','' @ quoteJSONString ''fields'' @ '':'' @
       stringifyArray (map stringifyField (nc_fields c)) @ ''}'' @ r)
   = quoteJSONString (nc_name c') @ ('','' @ quoteJSONString ''fields'' @ '':'' @
       stringifyArray (map stringifyField (nc_fields c')) @ ''}'' @ r')"
    by (simp add: stringifyCollection_def)
  from quoteJSONString_inj[OF this] have n: "nc_name c = nc_name c'"
    and "stringifyArray (map stringifyField (nc_fields c)) @ (''}'' @ r)
       = stringifyArray (map stringifyField (nc_fields c')) @ (''}'' @ r')"
    by simp_all
  from stringifyArray_inj[of stringifyField, OF stringifyField_inj stringifyField_hd this(2)]
  have "nc_fields c = nc_fields c'" and "r = r'" by simp_all
  with n show ?thesis by simp
qed

lemma stringifyCollection_hd: "hd (stringifyCollection c @ r) = CHR ''{''"
  by (simp add: stringifyCollection_def)

lemma stringifySchema_inj:
  assumes "stringifySchema n = stringifySchema n'"
  shows "n = n'"
proof -
  from assms have
    "stringifyArray (map stringifyCollection (ns_collections n)) @ ''}''
   = stringifyArray (map stringifyCollection (ns_collections n')) @ ''}''"
    by (simp add: stringifySchema_def)
  from stringifyArray_inj[of stringifyCollection, OF stringifyCollection_inj stringifyCollection_hd this]
  show ?thesis by simp
qed

section \<open>Properties of the normaliser\<close>

subsection \<open>Degenerate inputs\<close>

lemma safeString_nonstring: "\<not> isString v \<Longrightarrow> safeString v = []"
  by (simp add: safeString_def)

lemma normalizeField_object: "isObject f \<Longrightarrow> \<exists>n. normalizeField f = Inr n"
  by (cases f) (simp_all add: normalizeField_def)

lemma mapE_succeeds: "(\<And>x. x \<in> set xs \<Longrightarrow> \<exists>y. f x = Inr y) \<Longrightarrow> \<exists>ys. mapE f xs = Inr ys"
proof (induction xs)
  case Nil
  then show ?case by simp
next
  case (Cons x xs)
  then obtain y ys where "f x = Inr y" "mapE f xs = Inr ys" by (metis list.set_intros)
  then show ?case by simp
qed

lemma normalizeCollection_missing_fields:
  assumes "getProp c ''fields'' = Inr fv" "missingOrNull fv"
  shows "\<exists>n. getProp c ''name'' = Inr n \<and>
             normalizeCollection lc c = Inr \<lparr>nc_name = safeString n, nc_fields = []\<rparr>"
proof -
  obtain n where n: "getProp c ''name'' = Inr n" using assms(1) by (cases c) auto
  have "orEmptyArray fv = JArr []" using assms(2) by (auto simp: missingOrNull_def orEmptyArray_def)
  then show ?thesis using assms(1) n by (simp add: normalizeCollection_def arraySort_def)
qed

lemma normalizeCollection_degenerate:
  assumes "degenerateCollection c"
  shows "\<exists>n. normalizeCollection lc c = Inr n"
proof -
  from assms obtain kvs where c: "c = JObj kvs" by (cases c) (auto simp: degenerateCollection_def)
  obtain fv where fv: "getProp c ''fields'' = Inr fv" using c by simp
  obtain n where n: "getProp c ''name'' = Inr n" using c by simp
  from assms fv have "missingOrNull fv \<or> (\<exists>fs. fv = JArr fs \<and> list_all isObject fs)"
    by (auto simp: degenerateCollection_def split: jsval.splits)
  then show ?thesis
  proof
    assume "missingOrNull fv"
    from normalizeCollection_missing_fields[OF fv this] show ?thesis by blast
  next
    assume "\<exists>fs. fv = JArr fs \<and> list_all isObject fs"
    then obtain fs where fs: "fv = JArr fs" "list_all isObject fs" by blast
    then have "\<exists>ys. mapE normalizeField fs = Inr ys"
      by (intro mapE_succeeds normalizeField_object) (simp add: list_all_iff)
    then obtain ys where "mapE normalizeField fs = Inr ys" by blast
    then show ?thesis using fv n fs by (simp add: normalizeCollection_def orEmptyArray_def)
  qed
qed

lemma normalizeSchema_missing_collections:
  assumes "getProp s ''collections'' = Inr cv" "missingOrNull cv"
  shows "normalizeSchema lc s = Inr \<lparr>ns_collections = []\<rparr>"
proof -
  have "orEmptyArray cv = JArr []" using assms(2) by (auto simp: missingOrNull_def orEmptyArray_def)
  then show ?thesis using assms(1) by (simp add: normalizeSchema_def arraySort_def)
qed

lemma normalizeSchema_degenerate:
  assumes "degenerateSchema s"
  shows "\<exists>n. normalizeSchema lc s = Inr n"
proof -
  from assms obtain kvs where s: "s = JObj kvs" by (cases s) (auto simp: degenerateSchema_def)
  obtain cv where cv: "getProp s ''collections'' = Inr cv" using s by simp
  from assms cv have "missingOrNull cv \<or> (\<exists>cs. cv = JArr cs \<and> list_all degenerateCollection cs)"
    by (auto simp: degenerateSchema_def split: jsval.splits)
  then show ?thesis
  proof
    assume "missingOrNull cv"
    from normalizeSchema_missing_collections[OF cv this] show ?thesis by blast
  next
    assume "\<exists>cs. cv = JArr cs \<and> list_all degenerateCollection cs"
    then obtain cs where cs: "cv = JArr cs" "list_all degenerateCollection cs" by blast
    then have "\<exists>ys. mapE (normalizeCollection lc) cs = Inr ys"
      by (intro mapE_succeeds normalizeCollection_degenerate) (simp add: list_all_iff)
    then obtain ys where "mapE (normalizeCollection lc) cs = Inr ys" by blast
    then show ?thesis using cv cs by (simp add: normalizeSchema_def orEmptyArray_def)
  qed
qed

subsection \<open>The result on degenerate inputs\<close>

lemma safeString_trimmedOrEmpty: "safeString v = trimmedOrEmpty v"
  by (cases v) (simp_all add: safeString_def trimmedOrEmpty_def)

lemma getProp_object: "isObject v \<Longrightarrow> getProp v k = Inr (propertyOf v k)"
  by (cases v) (simp_all add: propertyOf_def)

lemma mapE_on: "(\<And>x. x \<in> set xs \<Longrightarrow> f x = Inr (g x)) \<Longrightarrow> mapE f xs = Inr (map g xs)"
  by (induction xs) simp_all

lemma normalizeField_expected: "isObject f \<Longrightarrow> normalizeField f = Inr (expectedField f)"
  by (simp add: normalizeField_def getProp_object expectedField_def safeString_trimmedOrEmpty)

lemma orEmptyArray_elements:
  "missingOrNull v \<or> (\<exists>xs. v = JArr xs) \<Longrightarrow> asArray (orEmptyArray v) = Inr (elementsOrNone v)"
  by (auto simp: missingOrNull_def orEmptyArray_def elementsOrNone_def)

lemma normalizeCollection_expected:
  assumes "degenerateCollection c"
  shows "normalizeCollection lc c = Inr (expectedCollection lc c)"
proof -
  have obj: "isObject c" using assms by (simp add: degenerateCollection_def)
  let ?fv = "propertyOf c ''fields''"
  have fv: "missingOrNull ?fv \<or> (\<exists>fs. ?fv = JArr fs \<and> list_all isObject fs)"
    using assms by (auto simp: degenerateCollection_def getProp_object[OF obj] split: jsval.splits)
  then have arr: "asArray (orEmptyArray ?fv) = Inr (elementsOrNone ?fv)"
    by (intro orEmptyArray_elements) blast
  have "\<And>f. f \<in> set (elementsOrNone ?fv) \<Longrightarrow> isObject f"
    using fv by (auto simp: elementsOrNone_def missingOrNull_def list_all_iff)
  then have m: "mapE normalizeField (elementsOrNone ?fv) = Inr (map expectedField (elementsOrNone ?fv))"
    by (intro mapE_on normalizeField_expected)
  show ?thesis
    by (simp add: normalizeCollection_def getProp_object[OF obj] arr m expectedCollection_def
        safeString_trimmedOrEmpty)
qed

lemma normalizeSchema_expected:
  assumes "degenerateSchema d"
  shows "normalizeSchema lc d = Inr (expectedSchema lc d)"
proof -
  have obj: "isObject d" using assms by (simp add: degenerateSchema_def)
  let ?cv = "propertyOf d ''collections''"
  have cv: "missingOrNull ?cv \<or> (\<exists>cs. ?cv = JArr cs \<and> list_all degenerateCollection cs)"
    using assms by (auto simp: degenerateSchema_def getProp_object[OF obj] split: jsval.splits)
  then have arr: "asArray (orEmptyArray ?cv) = Inr (elementsOrNone ?cv)"
    by (intro orEmptyArray_elements) blast
  have "\<And>c. c \<in> set (elementsOrNone ?cv) \<Longrightarrow> degenerateCollection c"
    using cv by (auto simp: elementsOrNone_def missingOrNull_def list_all_iff)
  then have m: "mapE (normalizeCollection lc) (elementsOrNone ?cv)
              = Inr (map (expectedCollection lc) (elementsOrNone ?cv))"
    by (intro mapE_on normalizeCollection_expected)
  show ?thesis
    by (simp add: normalizeSchema_def getProp_object[OF obj] arr m expectedSchema_def)
qed

lemma expected_empty:
  "\<not> isString v \<Longrightarrow> trimmedOrEmpty v = []"
  "missingOrNull v \<Longrightarrow> elementsOrNone v = []"
  by (cases v; simp add: trimmedOrEmpty_def elementsOrNone_def missingOrNull_def)+

text \<open>
  Claim C7.  The normaliser does not fail on the degenerate inputs, and its result is
  the one described.  A schema whose \<^verbatim>\<open>collections\<close> is absent or \<^verbatim>\<open>null\<close>
  normalises to the record with no collections; a collection whose \<^verbatim>\<open>fields\<close> is
  absent or \<^verbatim>\<open>null\<close> normalises with no fields (and the safe string of its name); a
  value that is no string, an absent one included, becomes the empty string, so a field
  that can be read normalises whatever its \<^verbatim>\<open>name\<close> and \<^verbatim>\<open>type\<close> are.  For every
  degenerate schema the normaliser returns exactly the expected schema: no collection
  and no field is lost, each keeps its trimmed name (and type), the empty string
  standing for a name or type that is absent or no string, and no fields for a
  \<^verbatim>\<open>fields\<close> that is absent or \<^verbatim>\<open>null\<close>; likewise for a degenerate collection.
\<close>

theorem normalizeSchema_defensive:
  "(getProp s ''collections'' = Inr cv \<and> missingOrNull cv
      \<longrightarrow> normalizeSchema lc s = Inr \<lparr>ns_collections = []\<rparr>)
   \<and> (getProp c ''fields'' = Inr fv \<and> missingOrNull fv
      \<longrightarrow> (\<exists>n. getProp c ''name'' = Inr n \<and>
               normalizeCollection lc c = Inr \<lparr>nc_name = safeString n, nc_fields = []\<rparr>))
   \<and> (\<not> isString v \<longrightarrow> safeString v = [])
   \<and> (getProp f ''name'' = Inr fn \<and> getProp f ''type'' = Inr ft
      \<longrightarrow> normalizeField f = Inr \<lparr>nf_name = safeString fn, nf_type = safeString ft\<rparr>)
   \<and> (degenerateSchema d \<longrightarrow> normalizeSchema lc d = Inr (expectedSchema lc d))
   \<and> (degenerateCollection dc \<longrightarrow> normalizeCollection lc dc = Inr (expectedCollection lc dc))
   \<and> (\<not> isString v \<longrightarrow> trimmedOrEmpty v = [])
   \<and> (missingOrNull v \<longrightarrow> elementsOrNone v = [])"
  using normalizeSchema_missing_collections[of s cv lc]
    normalizeCollection_missing_fields[of c fv lc] safeString_nonstring[of v]
    normalizeSchema_expected[of d lc] normalizeCollection_expected[of dc lc]
    expected_empty[of v]
  by (simp add: normalizeField_def)

theorem normalizeSchema_defensive_witness:
  "normalizeSchema codeUnitCompare (JObj [(''note'', JStr ''x'')]) = Inr \<lparr>ns_collections = []\<rparr>
   \<and> normalizeCollection codeUnitCompare (JObj [(''name'', JNum 7), (''fields'', JNull)])
       = Inr \<lparr>nc_name = [], nc_fields = []\<rparr>
   \<and> safeString JUndefined = []
   \<and> normalizeField (JObj [(''type'', JBool True)]) = Inr \<lparr>nf_name = [], nf_type = []\<rparr>
   \<and> degenerateSchema
        (JObj [(''collections'',
                JArr [JObj [(''name'', JStr ''users''), (''fields'', JNull)],
                      JObj [(''name'', JNum 7)],
                      JObj [(''name'', JStr '' posts ''),
                            (''fields'',
                             JArr [JObj [(''name'', JStr ''title''), (''type'', JBool True)],
                                   JObj [(''type'', JStr '' String'')],
                                   JObj [(''name'', JStr ''id ''), (''type'', JStr ''ObjectID'')]])]])])
   \<and> normalizeSchema codeUnitCompare
        (JObj [(''collections'',
                JArr [JObj [(''name'', JStr ''users''), (''fields'', JNull)],
                      JObj [(''name'', JNum 7)],
                      JObj [(''name'', JStr '' posts ''),
                            (''fields'',
                             JArr [JObj [(''name'', JStr ''title''), (''type'', JBool True)],
                                   JObj [(''type'', JStr '' String'')],
                                   JObj [(''name'', JStr ''id ''), (''type'', JStr ''ObjectID'')]])]])])
     = Inr \<lparr>ns_collections =
              [\<lparr>nc_name = [], nc_fields = []\<rparr>,
               \<lparr>nc_name = ''posts'',
                nc_fields =
                  [\<lparr>nf_name = [], nf_type = ''String''\<rparr>,
                   \<lparr>nf_name = ''id'', nf_type = ''ObjectID''\<rparr>,
                   \<lparr>nf_name = ''title'', nf_type = []\<rparr>]\<rparr>,
               \<lparr>nc_name = ''users'', nc_fields = []\<rparr>]\<rparr>
   \<and> degenerateCollection (JObj [(''fields'', JArr [JObj [(''name'', JNull), (''type'', JStr ''Date'')]])])
   \<and> normalizeCollection codeUnitCompare
        (JObj [(''fields'', JArr [JObj [(''name'', JNull), (''type'', JStr ''Date'')]])])
     = Inr \<lparr>nc_name = [], nc_fields = [\<lparr>nf_name = [], nf_type = ''Date''\<rparr>]\<rparr>
   \<and> trimmedOrEmpty JUndefined = []
   \<and> elementsOrNone JNull = []"
proof -
  let ?s = "JObj [(''note'', JStr ''x'')]"
  let ?c = "JObj [(''name'', JNum 7), (''fields'', JNull)]"
  let ?f = "JObj [(''type'', JBool True)]"
  let ?d = "JObj [(''collections'',
                JArr [JObj [(''name'', JStr ''users''), (''fields'', JNull)],
                      JObj [(''name'', JNum 7)],
                      JObj [(''name'', JStr '' posts ''),
                            (''fields'',
                             JArr [JObj [(''name'', JStr ''title''), (''type'', JBool True)],
                                   JObj [(''type'', JStr '' String'')],
                                   JObj [(''name'', JStr ''id ''), (''type'', JStr ''ObjectID'')]])]])]"
  let ?dc = "JObj [(''fields'', JArr [JObj [(''name'', JNull), (''type'', JStr ''Date'')]])]"
  have h1: "getProp ?s ''collections'' = Inr JUndefined \<and> missingOrNull JUndefined"
    by (simp add: missingOrNull_def)
  have h2: "getProp ?c ''fields'' = Inr JNull \<and> missingOrNull JNull"
    by (simp add: missingOrNull_def)
  have h2n: "getProp ?c ''name'' = Inr (JNum 7)" by simp
  have h3: "\<not> isString JUndefined" by simp
  have h3n: "missingOrNull JNull" by (simp add: missingOrNull_def)
  have h4: "getProp ?f ''name'' = Inr JUndefined \<and> getProp ?f ''type'' = Inr (JBool True)"
    by simp
  have h5: "degenerateSchema ?d"
    by (simp add: degenerateSchema_def degenerateCollection_def missingOrNull_def)
  have h6: "degenerateCollection ?dc"
    by (simp add: degenerateCollection_def missingOrNull_def)
  have v5: "expectedSchema codeUnitCompare ?d
     = \<lparr>ns_collections =
              [\<lparr>nc_name = [], nc_fields = []\<rparr>,
               \<lparr>nc_name = ''posts'',
                nc_fields =
                  [\<lparr>nf_name = [], nf_type = ''String''\<rparr>,
                   \<lparr>nf_name = ''id'', nf_type = ''ObjectID''\<rparr>,
                   \<lparr>nf_name = ''title'', nf_type = []\<rparr>]\<rparr>,
               \<lparr>nc_name = ''users'', nc_fields = []\<rparr>]\<rparr>"
    by code_simp
  have v6: "expectedCollection codeUnitCompare ?dc
     = \<lparr>nc_name = [], nc_fields = [\<lparr>nf_name = [], nf_type = ''Date''\<rparr>]\<rparr>"
    by code_simp
  have s7: "safeString (JNum 7) = []" and sU: "safeString JUndefined = []"
    and sT: "safeString (JBool True) = []"
    by (simp_all add: safeString_def)
  from normalizeSchema_defensive[of ?s JUndefined codeUnitCompare ?c JNull JUndefined ?f
      JUndefined "JBool True" ?d ?dc] h1 h2 h3 h4 h5 h6
  have "normalizeSchema codeUnitCompare ?s = Inr \<lparr>ns_collections = []\<rparr>"
    and "\<exists>n. getProp ?c ''name'' = Inr n \<and>
           normalizeCollection codeUnitCompare ?c = Inr \<lparr>nc_name = safeString n, nc_fields = []\<rparr>"
    and "safeString JUndefined = []"
    and "normalizeField ?f = Inr \<lparr>nf_name = safeString JUndefined, nf_type = safeString (JBool True)\<rparr>"
    and "normalizeSchema codeUnitCompare ?d = Inr (expectedSchema codeUnitCompare ?d)"
    and "normalizeCollection codeUnitCompare ?dc = Inr (expectedCollection codeUnitCompare ?dc)"
    and "trimmedOrEmpty JUndefined = []"
    by blast+
  moreover from normalizeSchema_defensive[of ?s JUndefined codeUnitCompare ?c JNull JNull ?f
      JUndefined "JBool True" ?d ?dc] h3n
  have "elementsOrNone JNull = []" by blast
  ultimately show ?thesis using h2n s7 sU sT h5 h6 v5 v6 by auto
qed

subsection \<open>The normaliser on values of the declared types\<close>

lemma mapE_map: "(\<And>x. f (h x) = Inr (g x)) \<Longrightarrow> mapE f (map h xs) = Inr (map g xs)"
  by (induction xs) auto

lemma normalizeCollection_collectionValue:
  "normalizeCollection lc (collectionValue c) = Inr (normCollectionOf lc c)"
proof -
  have "mapE normalizeField (map fieldValue (c_fields c)) = Inr (map normFieldOf (c_fields c))"
    by (rule mapE_map) (simp add: normalizeField_fieldValue normFieldOf_def)
  then show ?thesis
    by (simp add: normalizeCollection_def collectionValue_def orEmptyArray_def normCollectionOf_def)
qed

lemma normalizeSchema_schemaValue:
  "normalizeSchema lc (schemaValue s) = Inr (normSchemaOf lc s)"
  by (simp add: normalizeSchema_def schemaValue_def orEmptyArray_def normSchemaOf_def
      mapE_map[of "normalizeCollection lc" collectionValue "normCollectionOf lc", OF normalizeCollection_collectionValue])

lemma normalizedString_schemaValue:
  "normalizedString lc (schemaValue s) = Inr (stringifySchema (normSchemaOf lc s))"
  by (simp add: normalizedString_def normalizeSchema_schemaValue)

lemma normalForm_normSchemaOf:
  assumes "consistentComparator lc"
  shows "normalForm lc (normSchemaOf lc s)"
proof -
  have cf: "consistentComparator (\<lambda>a b. lc (nf_name a) (nf_name b))"
    and cc: "consistentComparator (\<lambda>a b. lc (nc_name a) (nc_name b))"
    using assms by (rule consistent_on_key)+
  show ?thesis
    unfolding normalForm_def normSchemaOf_def
    using sortedBy_arraySort[OF cc] sortedBy_arraySort[OF cf]
    by (auto simp: set_arraySort normCollectionOf_def normFieldOf_def trim_idem)
qed

lemma normFieldOf_reconstructed:
  assumes "f_name f = nf_name nf \<and> f_type f = nf_type nf"
    and "trim (nf_name nf) = nf_name nf \<and> trim (nf_type nf) = nf_type nf"
  shows "normFieldOf f = nf"
  using assms by (simp add: normFieldOf_def)

lemma map_eq_of_list_all2: "list_all2 (\<lambda>x y. g x = y) xs ys \<Longrightarrow> map g xs = ys"
  by (induction rule: list_all2_induct) auto

lemma normCollectionOf_reconstructed:
  assumes r: "c_name c = nc_name nc"
    "list_all2 (\<lambda>f nf. f_name f = nf_name nf \<and> f_type f = nf_type nf) (c_fields c) (nc_fields nc)"
    and t: "trim (nc_name nc) = nc_name nc"
    and s: "sortedBy (\<lambda>a b. lc (nf_name a) (nf_name b)) (nc_fields nc)"
    and ft: "\<forall>f \<in> set (nc_fields nc). trim (nf_name f) = nf_name f \<and> trim (nf_type f) = nf_type f"
  shows "normCollectionOf lc c = nc"
proof -
  have "list_all2 (\<lambda>f nf. normFieldOf f = nf) (c_fields c) (nc_fields nc)"
    using r(2) ft by (auto simp: list_all2_conv_all_nth intro!: normFieldOf_reconstructed)
  then have "map normFieldOf (c_fields c) = nc_fields nc" by (rule map_eq_of_list_all2)
  then show ?thesis using r(1) t arraySort_sorted_id[OF s] by (simp add: normCollectionOf_def)
qed

lemma normSchemaOf_reconstructed:
  assumes "normalForm lc n" "reconstructs s n"
  shows "normSchemaOf lc s = n"
proof -
  have "list_all2 (\<lambda>c nc. normCollectionOf lc c = nc) (s_collections s) (ns_collections n)"
    using assms unfolding reconstructs_def normalForm_def
    by (auto simp: list_all2_conv_all_nth intro!: normCollectionOf_reconstructed)
  then have "map (normCollectionOf lc) (s_collections s) = ns_collections n"
    by (rule map_eq_of_list_all2)
  then show ?thesis using assms(1) arraySort_sorted_id[of "\<lambda>a b. lc (nc_name a) (nc_name b)" "ns_collections n"]
    by (simp add: normSchemaOf_def normalForm_def)
qed

lemma normalizeField_normFieldValue:
  "trim (nf_name f) = nf_name f \<Longrightarrow> trim (nf_type f) = nf_type f
   \<Longrightarrow> normalizeField (normFieldValue f) = Inr f"
  by (simp add: normalizeField_def normFieldValue_def)

lemma mapE_map_on: "(\<And>x. x \<in> set xs \<Longrightarrow> f (h x) = Inr x) \<Longrightarrow> mapE f (map h xs) = Inr xs"
  by (induction xs) auto

lemma normalizeCollection_normCollectionValue:
  assumes t: "trim (nc_name c) = nc_name c"
    and s: "sortedBy (\<lambda>a b. lc (nf_name a) (nf_name b)) (nc_fields c)"
    and ft: "\<forall>f \<in> set (nc_fields c). trim (nf_name f) = nf_name f \<and> trim (nf_type f) = nf_type f"
  shows "normalizeCollection lc (normCollectionValue c) = Inr c"
proof -
  have "mapE normalizeField (map normFieldValue (nc_fields c)) = Inr (nc_fields c)"
    using ft by (intro mapE_map_on normalizeField_normFieldValue) auto
  then show ?thesis using t arraySort_sorted_id[OF s]
    by (simp add: normalizeCollection_def normCollectionValue_def orEmptyArray_def)
qed

lemma normalizeSchema_normSchemaValue:
  assumes "normalForm lc n"
  shows "normalizeSchema lc (normSchemaValue n) = Inr n"
proof -
  have "mapE (normalizeCollection lc) (map normCollectionValue (ns_collections n)) = Inr (ns_collections n)"
    using assms unfolding normalForm_def
    by (intro mapE_map_on normalizeCollection_normCollectionValue) auto
  then show ?thesis
    using assms arraySort_sorted_id[of "\<lambda>a b. lc (nc_name a) (nc_name b)" "ns_collections n"]
    by (simp add: normalizeSchema_def normSchemaValue_def orEmptyArray_def normalForm_def)
qed

subsection \<open>Equal encodings and equal structure\<close>

lemma consistent_zero_sym: "consistentComparator cmp \<Longrightarrow> cmp a b = 0 \<Longrightarrow> cmp b a = 0"
  unfolding consistentComparator_def by (metis less_irrefl linorder_less_linear)

lemma untied_tie_same:
  assumes c: "consistentComparator lc"
  shows "untied lc (map k xs) \<Longrightarrow> a \<in> set xs \<Longrightarrow> b \<in> set xs \<Longrightarrow> lc (k a) (k b) = 0 \<Longrightarrow> a = b"
proof (induction xs)
  case Nil
  then show ?case by simp
next
  case (Cons x xs)
  have nt: "\<And>y. y \<in> set xs \<Longrightarrow> lc (k x) (k y) \<noteq> 0"
    using Cons.prems(1) by (auto simp: list_all_iff)
  show ?case
  proof (cases "a = x")
    case True
    show ?thesis
    proof (cases "b = x")
      case True
      then show ?thesis using \<open>a = x\<close> by simp
    next
      case False
      then have "b \<in> set xs" using Cons.prems(3) by simp
      then show ?thesis using nt[of b] Cons.prems(4) True by simp
    qed
  next
    case False
    then have a: "a \<in> set xs" using Cons.prems(2) by simp
    show ?thesis
    proof (cases "b = x")
      case True
      then have "lc (k x) (k a) = 0" using consistent_zero_sym[OF c] Cons.prems(4) by blast
      then show ?thesis using nt[OF a] by simp
    next
      case False
      then have "b \<in> set xs" using Cons.prems(3) by simp
      then show ?thesis using Cons.IH a Cons.prems(1,4) by simp
    qed
  qed
qed

lemma untied_distinct:
  assumes c: "consistentComparator lc"
  shows "untied lc (map k xs) \<Longrightarrow> distinct (map k xs)"
proof (induction xs)
  case Nil
  then show ?case by simp
next
  case (Cons x xs)
  have "k x \<notin> set (map k xs)"
  proof
    assume "k x \<in> set (map k xs)"
    then have "lc (k x) (k x) \<noteq> 0" using Cons.prems by (auto simp: list_all_iff)
    then show False using consistent_refl[OF c] by simp
  qed
  then show ?case using Cons by simp
qed

lemma distinct_of_distinct_key: "distinct (map k xs) \<Longrightarrow> distinct xs"
  by (simp add: distinct_map)

lemma mset_eq_of_set_eq:
  "set xs = set ys \<Longrightarrow> distinct xs \<Longrightarrow> distinct ys \<Longrightarrow> mset xs = mset ys"
  by (simp add: set_eq_iff_mset_eq_distinct)

lemma fieldPairs_normFieldOf:
  "fieldPairs c = (\<lambda>nf. (nf_name nf, nf_type nf)) ` set (map normFieldOf (c_fields c))"
  by (auto simp: fieldPairs_def normFieldOf_def image_iff)

lemma normField_pair_inj: "inj (\<lambda>nf :: normField. (nf_name nf, nf_type nf))"
  by (rule injI) simp

lemma same_pairs_same_fields:
  assumes "fieldPairs c1 = fieldPairs c2"
  shows "set (map normFieldOf (c_fields c1)) = set (map normFieldOf (c_fields c2))"
  using assms unfolding fieldPairs_normFieldOf
  by (metis inj_image_eq_iff normField_pair_inj)

lemma untied_fields:
  assumes c: "consistentComparator lc"
    and u: "untied lc (map (\<lambda>f. trim (f_name f)) (c_fields col))"
  shows "distinct (map normFieldOf (c_fields col))"
    and "\<And>a b. a \<in> set (map normFieldOf (c_fields col)) \<Longrightarrow> b \<in> set (map normFieldOf (c_fields col))
          \<Longrightarrow> lc (nf_name a) (nf_name b) = 0 \<Longrightarrow> a = b"
proof -
  have u': "untied lc (map nf_name (map normFieldOf (c_fields col)))"
    using u by (simp add: comp_def normFieldOf_def)
  show "distinct (map normFieldOf (c_fields col))"
    using untied_distinct[OF c u'] by (rule distinct_of_distinct_key)
  show "\<And>a b. a \<in> set (map normFieldOf (c_fields col)) \<Longrightarrow> b \<in> set (map normFieldOf (c_fields col))
          \<Longrightarrow> lc (nf_name a) (nf_name b) = 0 \<Longrightarrow> a = b"
    using untied_tie_same[OF c u'] by blast
qed

lemma normCollectionOf_same:
  assumes c: "consistentComparator lc"
    and u1: "untied lc (map (\<lambda>f. trim (f_name f)) (c_fields c1))"
    and u2: "untied lc (map (\<lambda>f. trim (f_name f)) (c_fields c2))"
    and n: "trim (c_name c1) = trim (c_name c2)"
    and p: "fieldPairs c1 = fieldPairs c2"
  shows "normCollectionOf lc c1 = normCollectionOf lc c2"
proof -
  have "mset (map normFieldOf (c_fields c1)) = mset (map normFieldOf (c_fields c2))"
    using same_pairs_same_fields[OF p] untied_fields(1)[OF c u1] untied_fields(1)[OF c u2]
    by (rule mset_eq_of_set_eq)
  then have "arraySort (\<lambda>a b. lc (nf_name a) (nf_name b)) (map normFieldOf (c_fields c1))
           = arraySort (\<lambda>a b. lc (nf_name a) (nf_name b)) (map normFieldOf (c_fields c2))"
    using untied_fields(2)[OF c u1]
    by (intro arraySort_permutation consistent_on_key[OF c]) auto
  then show ?thesis using n by (simp add: normCollectionOf_def)
qed

lemma nc_name_normCollectionOf [simp]: "nc_name (normCollectionOf lc c) = trim (c_name c)"
  by (simp add: normCollectionOf_def)

lemma fieldPairs_of_normCollectionOf:
  "fieldPairs c = (\<lambda>nf. (nf_name nf, nf_type nf)) ` set (nc_fields (normCollectionOf lc c))"
  by (simp add: fieldPairs_normFieldOf normCollectionOf_def set_arraySort)

lemma untied_collections:
  assumes c: "consistentComparator lc"
    and u: "untied lc (map (\<lambda>c. trim (c_name c)) cols)"
  shows "distinct (map (normCollectionOf lc) cols)"
    and "\<And>a b. a \<in> set (map (normCollectionOf lc) cols) \<Longrightarrow> b \<in> set (map (normCollectionOf lc) cols)
          \<Longrightarrow> lc (nc_name a) (nc_name b) = 0 \<Longrightarrow> a = b"
proof -
  have u': "untied lc (map nc_name (map (normCollectionOf lc) cols))"
    using u by (simp add: comp_def)
  show "distinct (map (normCollectionOf lc) cols)"
    using untied_distinct[OF c u'] by (rule distinct_of_distinct_key)
  show "\<And>a b. a \<in> set (map (normCollectionOf lc) cols) \<Longrightarrow> b \<in> set (map (normCollectionOf lc) cols)
          \<Longrightarrow> lc (nc_name a) (nc_name b) = 0 \<Longrightarrow> a = b"
    using untied_tie_same[OF c u'] by blast
qed

lemma sameStructure_normal_sets:
  assumes c: "consistentComparator lc"
    and u1: "uniqueNames lc s1" and u2: "uniqueNames lc s2"
    and ss: "sameStructure s1 s2"
  shows "set (map (normCollectionOf lc) (s_collections s1))
       \<subseteq> set (map (normCollectionOf lc) (s_collections s2))"
proof
  fix x assume "x \<in> set (map (normCollectionOf lc) (s_collections s1))"
  then obtain c1 where c1: "c1 \<in> set (s_collections s1)" "x = normCollectionOf lc c1" by auto
  then have "trim (c_name c1) \<in> collectionNames s2"
    using ss by (auto simp: sameStructure_def collectionNames_def)
  then obtain c2 where c2: "c2 \<in> set (s_collections s2)" "trim (c_name c1) = trim (c_name c2)"
    by (auto simp: collectionNames_def)
  have p: "fieldPairs c1 = fieldPairs c2" using ss c1(1) c2 by (simp add: sameStructure_def)
  have "untied lc (map (\<lambda>f. trim (f_name f)) (c_fields c1))"
    using u1 c1(1) by (simp add: uniqueNames_def list_all_iff)
  moreover have "untied lc (map (\<lambda>f. trim (f_name f)) (c_fields c2))"
    using u2 c2(1) by (simp add: uniqueNames_def list_all_iff)
  ultimately have "normCollectionOf lc c1 = normCollectionOf lc c2"
    using normCollectionOf_same[OF c _ _ c2(2) p] by blast
  then show "x \<in> set (map (normCollectionOf lc) (s_collections s2))" using c1(2) c2(1) by auto
qed

lemma sameStructure_sym: "sameStructure s1 s2 \<Longrightarrow> sameStructure s2 s1"
  unfolding sameStructure_def by (metis)

lemma sameStructure_normSchemaOf:
  assumes c: "consistentComparator lc"
    and u1: "uniqueNames lc s1" and u2: "uniqueNames lc s2"
    and ss: "sameStructure s1 s2"
  shows "normSchemaOf lc s1 = normSchemaOf lc s2"
proof -
  have "set (map (normCollectionOf lc) (s_collections s1))
      = set (map (normCollectionOf lc) (s_collections s2))"
    using sameStructure_normal_sets[OF c u1 u2 ss]
      sameStructure_normal_sets[OF c u2 u1 sameStructure_sym[OF ss]] by blast
  moreover have "distinct (map (normCollectionOf lc) (s_collections s1))"
    using untied_collections(1)[OF c] u1 by (simp add: uniqueNames_def)
  moreover have "distinct (map (normCollectionOf lc) (s_collections s2))"
    using untied_collections(1)[OF c] u2 by (simp add: uniqueNames_def)
  ultimately have "mset (map (normCollectionOf lc) (s_collections s1))
                 = mset (map (normCollectionOf lc) (s_collections s2))"
    by (rule mset_eq_of_set_eq)
  then have "arraySort (\<lambda>a b. lc (nc_name a) (nc_name b)) (map (normCollectionOf lc) (s_collections s1))
           = arraySort (\<lambda>a b. lc (nc_name a) (nc_name b)) (map (normCollectionOf lc) (s_collections s2))"
    using untied_collections(2)[OF c, of "s_collections s1"] u1
    by (intro arraySort_permutation consistent_on_key[OF c]) (auto simp: uniqueNames_def)
  then show ?thesis by (simp add: normSchemaOf_def)
qed

lemma normSchemaOf_sameStructure:
  assumes c: "consistentComparator lc"
    and u2: "uniqueNames lc s2"
    and e: "normSchemaOf lc s1 = normSchemaOf lc s2"
  shows "sameStructure s1 s2"
proof -
  have sets: "set (map (normCollectionOf lc) (s_collections s1))
            = set (map (normCollectionOf lc) (s_collections s2))"
    using e by (metis normSchemaOf_def normSchema.simps(1) set_arraySort)
  have names: "collectionNames s1 = collectionNames s2"
  proof -
    have "collectionNames s = nc_name ` set (map (normCollectionOf lc) (s_collections s))" for s
      by (auto simp: collectionNames_def image_iff)
    then show ?thesis using sets by simp
  qed
  have pairs: "fieldPairs c1 = fieldPairs c2"
    if c1: "c1 \<in> set (s_collections s1)" and c2: "c2 \<in> set (s_collections s2)"
      and n: "trim (c_name c1) = trim (c_name c2)" for c1 c2
  proof -
    have "normCollectionOf lc c1 \<in> set (map (normCollectionOf lc) (s_collections s2))"
      using c1 sets by auto
    then obtain c2' where c2': "c2' \<in> set (s_collections s2)"
      "normCollectionOf lc c1 = normCollectionOf lc c2'" by auto
    then have "trim (c_name c2') = trim (c_name c2)"
      using n by (metis nc_name_normCollectionOf)
    then have "lc (trim (c_name c2')) (trim (c_name c2)) = 0"
      using consistent_refl[OF c] by simp
    then have "c2' = c2"
      using untied_tie_same[OF c, of "\<lambda>c. trim (c_name c)" "s_collections s2" c2' c2] u2 c2' c2
      by (simp add: uniqueNames_def)
    then show ?thesis
      using c2'(2) fieldPairs_of_normCollectionOf[of c1 lc] fieldPairs_of_normCollectionOf[of c2 lc]
      by simp
  qed
  show ?thesis unfolding sameStructure_def using names pairs by blast
qed

subsection \<open>Permuted schemas\<close>

lemma untied_iff:
  assumes c: "consistentComparator lc"
  shows "untied lc xs = (distinct xs \<and> (\<forall>a \<in> set xs. \<forall>b \<in> set xs. lc a b = 0 \<longrightarrow> a = b))"
proof
  assume u: "untied lc xs"
  then have u': "untied lc (map (\<lambda>x. x) xs)" by simp
  show "distinct xs \<and> (\<forall>a \<in> set xs. \<forall>b \<in> set xs. lc a b = 0 \<longrightarrow> a = b)"
    using untied_distinct[OF c u'] untied_tie_same[OF c u'] by auto
next
  assume "distinct xs \<and> (\<forall>a \<in> set xs. \<forall>b \<in> set xs. lc a b = 0 \<longrightarrow> a = b)"
  then show "untied lc xs"
  proof (induction xs)
    case Nil
    then show ?case by simp
  next
    case (Cons x xs)
    then have "list_all (\<lambda>y. lc x y \<noteq> 0) xs" by (auto simp: list_all_iff)
    then show ?case using Cons by simp
  qed
qed

lemma untied_mset:
  assumes "consistentComparator lc" "mset xs = mset ys" "untied lc xs"
  shows "untied lc ys"
  using assms(3) unfolding untied_iff[OF assms(1)]
  by (metis assms(2) mset_eq_imp_distinct_iff mset_eq_setD)

lemma permutedCollection_pairs:
  assumes "permutedCollection c c'"
  shows "fieldPairs c' = fieldPairs c"
proof -
  from assms have "mset (c_fields c') = mset (c_fields c)" by (simp add: permutedCollection_def)
  then have "set (c_fields c') = set (c_fields c)" by (rule mset_eq_setD)
  then show ?thesis by (simp add: fieldPairs_def)
qed

lemma permutedCollection_untied:
  assumes "consistentComparator lc" "permutedCollection c c'"
    "untied lc (map (\<lambda>f. trim (f_name f)) (c_fields c))"
  shows "untied lc (map (\<lambda>f. trim (f_name f)) (c_fields c'))"
proof -
  have "mset (c_fields c) = mset (c_fields c')"
    using assms(2) by (simp add: permutedCollection_def)
  then have m: "mset (map (\<lambda>f. trim (f_name f)) (c_fields c)) = mset (map (\<lambda>f. trim (f_name f)) (c_fields c'))"
    by (metis mset_map)
  show ?thesis by (rule untied_mset[OF assms(1) m assms(3)])
qed

lemma permuted_facts:
  assumes c: "consistentComparator lc" and u: "uniqueNames lc s" and p: "permutedSchema s s'"
  shows "uniqueNames lc s'" and "sameStructure s s'"
proof -
  from p obtain cs where cs: "mset cs = mset (s_collections s)"
    "list_all2 permutedCollection cs (s_collections s')"
    unfolding permutedSchema_def by blast
  have setcs: "set cs = set (s_collections s)" using cs(1) by (rule mset_eq_setD)
  have names: "map c_name (s_collections s') = map c_name cs"
    using cs(2) by (induction rule: list_all2_induct) (auto simp: permutedCollection_def)
  then have tn: "map (\<lambda>c. trim (c_name c)) (s_collections s') = map (\<lambda>c. trim (c_name c)) cs"
    by (metis (no_types, lifting) list.map_comp comp_def map_eq_conv)
  have corr: "\<exists>c \<in> set (s_collections s). permutedCollection c c'" if "c' \<in> set (s_collections s')" for c'
    using cs(2) that setcs by (metis in_set_conv_nth list_all2_conv_all_nth)
  have ucs: "untied lc (map (\<lambda>c. trim (c_name c)) cs)"
  proof -
    have m: "mset (map (\<lambda>c. trim (c_name c)) (s_collections s)) = mset (map (\<lambda>c. trim (c_name c)) cs)"
      using cs(1) by (metis mset_map)
    have u0: "untied lc (map (\<lambda>c. trim (c_name c)) (s_collections s))"
      using u by (simp add: uniqueNames_def)
    show ?thesis by (rule untied_mset[OF c m u0])
  qed
  show "uniqueNames lc s'"
    unfolding uniqueNames_def list_all_iff
  proof (intro conjI ballI)
    show "untied lc (map (\<lambda>c. trim (c_name c)) (s_collections s'))" using ucs tn by simp
  next
    fix c' assume "c' \<in> set (s_collections s')"
    then obtain c0 where c0: "c0 \<in> set (s_collections s)" "permutedCollection c0 c'" using corr by blast
    then have "untied lc (map (\<lambda>f. trim (f_name f)) (c_fields c0))"
      using u by (simp add: uniqueNames_def list_all_iff)
    then show "untied lc (map (\<lambda>f. trim (f_name f)) (c_fields c'))"
      using permutedCollection_untied[OF c c0(2)] by blast
  qed
  show "sameStructure s s'"
    unfolding sameStructure_def
  proof (intro conjI ballI impI)
    have "collectionNames s' = (\<lambda>c. trim (c_name c)) ` set cs"
      unfolding collectionNames_def using tn by (metis list.set_map)
    then show "collectionNames s = collectionNames s'"
      using setcs by (simp add: collectionNames_def)
  next
    fix c1 c2 assume c1: "c1 \<in> set (s_collections s)" and c2: "c2 \<in> set (s_collections s')"
      and n: "trim (c_name c1) = trim (c_name c2)"
    obtain c0 where c0: "c0 \<in> set (s_collections s)" "permutedCollection c0 c2" using corr[OF c2] by blast
    then have "trim (c_name c0) = trim (c_name c1)" using n by (simp add: permutedCollection_def)
    then have "lc (trim (c_name c0)) (trim (c_name c1)) = 0" using consistent_refl[OF c] by simp
    then have "c0 = c1"
      using untied_tie_same[OF c, of "\<lambda>c. trim (c_name c)" "s_collections s" c0 c1] u c0(1) c1
      by (simp add: uniqueNames_def)
    then show "fieldPairs c1 = fieldPairs c2" using permutedCollection_pairs[OF c0(2)] by simp
  qed
qed

subsection \<open>The claims on the normaliser\<close>

text \<open>
  Claim C8.  Normalisation is idempotent.  Let \<open>n\<close> be the normalised form of a schema
  \<open>s\<close>, with encoding \<open>stringifySchema n\<close>.  Normalising \<open>n\<close> itself, taken as a schema
  value, gives the same encoding, and so does normalising any schema reconstructed from
  the collections of \<open>n\<close>, whatever descriptive text it is given.
\<close>

theorem normalizeSchema_idempotent:
  assumes "consistentComparator lc" and "normalizeSchema lc (schemaValue s) = Inr n"
  shows "normalizedString lc (schemaValue s) = Inr (stringifySchema n)
       \<and> normalizedString lc (normSchemaValue n) = Inr (stringifySchema n)
       \<and> (reconstructs s' n \<longrightarrow> normalizedString lc (schemaValue s') = Inr (stringifySchema n))"
proof -
  have n: "n = normSchemaOf lc s" using assms(2) by (simp add: normalizeSchema_schemaValue)
  have nf: "normalForm lc n" unfolding n by (rule normalForm_normSchemaOf[OF assms(1)])
  show ?thesis
    using assms(2) normalizeSchema_normSchemaValue[OF nf] normSchemaOf_reconstructed[OF nf, of s']
    by (simp add: normalizedString_def normalizeSchema_schemaValue)
qed

theorem normalizeSchema_idempotent_witness:
  "consistentComparator codeUnitCompare
   \<and> normalizeSchema codeUnitCompare
        (schemaValue \<lparr>s_collections =
           [mkCollection ''users'' [mkField ''email'' ''String''],
            mkCollection '' posts '' [mkField ''title'' ''String'', mkField '' id'' ''ObjectID '']]\<rparr>)
       = Inr \<lparr>ns_collections =
           [\<lparr>nc_name = ''posts'',
             nc_fields = [\<lparr>nf_name = ''id'', nf_type = ''ObjectID''\<rparr>,
                          \<lparr>nf_name = ''title'', nf_type = ''String''\<rparr>]\<rparr>,
            \<lparr>nc_name = ''users'', nc_fields = [\<lparr>nf_name = ''email'', nf_type = ''String''\<rparr>]\<rparr>]\<rparr>
   \<and> reconstructs
        \<lparr>s_collections =
           [\<lparr>c_name = ''posts'', c_description = ''what is written'',
             c_fields = [mkField ''id'' ''ObjectID'', mkField ''title'' ''String''],
             c_relevantRequirements = [''Each user can create multiple posts.'']\<rparr>,
            mkCollection ''users'' [mkField ''email'' ''String'']]\<rparr>
        \<lparr>ns_collections =
           [\<lparr>nc_name = ''posts'',
             nc_fields = [\<lparr>nf_name = ''id'', nf_type = ''ObjectID''\<rparr>,
                          \<lparr>nf_name = ''title'', nf_type = ''String''\<rparr>]\<rparr>,
            \<lparr>nc_name = ''users'', nc_fields = [\<lparr>nf_name = ''email'', nf_type = ''String''\<rparr>]\<rparr>]\<rparr>
   \<and> normalizedString codeUnitCompare
        (schemaValue \<lparr>s_collections =
           [\<lparr>c_name = ''posts'', c_description = ''what is written'',
             c_fields = [mkField ''id'' ''ObjectID'', mkField ''title'' ''String''],
             c_relevantRequirements = [''Each user can create multiple posts.'']\<rparr>,
            mkCollection ''users'' [mkField ''email'' ''String'']]\<rparr>)
       = normalizedString codeUnitCompare
        (schemaValue \<lparr>s_collections =
           [mkCollection ''users'' [mkField ''email'' ''String''],
            mkCollection '' posts '' [mkField ''title'' ''String'', mkField '' id'' ''ObjectID '']]\<rparr>)"
proof -
  let ?s = "\<lparr>s_collections =
           [mkCollection ''users'' [mkField ''email'' ''String''],
            mkCollection '' posts '' [mkField ''title'' ''String'', mkField '' id'' ''ObjectID '']]\<rparr>"
  let ?n = "\<lparr>ns_collections =
           [\<lparr>nc_name = ''posts'',
             nc_fields = [\<lparr>nf_name = ''id'', nf_type = ''ObjectID''\<rparr>,
                          \<lparr>nf_name = ''title'', nf_type = ''String''\<rparr>]\<rparr>,
            \<lparr>nc_name = ''users'', nc_fields = [\<lparr>nf_name = ''email'', nf_type = ''String''\<rparr>]\<rparr>]\<rparr>"
  let ?s' = "\<lparr>s_collections =
           [\<lparr>c_name = ''posts'', c_description = ''what is written'',
             c_fields = [mkField ''id'' ''ObjectID'', mkField ''title'' ''String''],
             c_relevantRequirements = [''Each user can create multiple posts.'']\<rparr>,
            mkCollection ''users'' [mkField ''email'' ''String'']]\<rparr>"
  have h1: "consistentComparator codeUnitCompare" by (rule codeUnitCompare_consistent)
  have h2: "normalizeSchema codeUnitCompare (schemaValue ?s) = Inr ?n" by code_simp
  have h3: "reconstructs ?s' ?n" by (simp add: reconstructs_def mkField_def mkCollection_def)
  from normalizeSchema_idempotent[OF h1 h2, of ?s'] h3
  have "normalizedString codeUnitCompare (schemaValue ?s')
      = normalizedString codeUnitCompare (schemaValue ?s)" by metis
  with h1 h2 h3 show ?thesis by blast
qed

text \<open>
  Claim C1, as stated: the encodings of two schemas are equal exactly when the schemas
  have the same structure (sets of collection names, sets of field pairs).  It fails
  where a field is listed twice.  The two schemas below have the same sets, yet the
  second encoding has one more field.  The field names are identical strings, on which
  every comparator returns zero, so the choice of comparator does not matter here.
\<close>

theorem normalizedString_counts_repeated_fields:
  "sameStructure
     \<lparr>s_collections = [mkCollection ''c'' [mkField ''a'' ''String'']]\<rparr>
     \<lparr>s_collections = [mkCollection ''c'' [mkField ''a'' ''String'', mkField ''a'' ''String'']]\<rparr>
   \<and> normalizedString codeUnitCompare
        (schemaValue \<lparr>s_collections = [mkCollection ''c'' [mkField ''a'' ''String'']]\<rparr>)
     \<noteq> normalizedString codeUnitCompare
        (schemaValue \<lparr>s_collections =
           [mkCollection ''c'' [mkField ''a'' ''String'', mkField ''a'' ''String'']]\<rparr>)"
proof
  show "sameStructure
     \<lparr>s_collections = [mkCollection ''c'' [mkField ''a'' ''String'']]\<rparr>
     \<lparr>s_collections = [mkCollection ''c'' [mkField ''a'' ''String'', mkField ''a'' ''String'']]\<rparr>"
    by (simp add: sameStructure_def collectionNames_def fieldPairs_def mkCollection_def mkField_def)
  show "normalizedString codeUnitCompare
        (schemaValue \<lparr>s_collections = [mkCollection ''c'' [mkField ''a'' ''String'']]\<rparr>)
     \<noteq> normalizedString codeUnitCompare
        (schemaValue \<lparr>s_collections =
           [mkCollection ''c'' [mkField ''a'' ''String'', mkField ''a'' ''String'']]\<rparr>)"
    by code_simp
qed

text \<open>
  Claim C1, amended.  For two schemas with unique names (no two collection names, and in
  no collection two field names, that the comparator takes for equal, all after
  trimming), the encodings are equal exactly when the schemas have the same sets of
  trimmed collection names and, for collections of the same name, the same sets of
  trimmed (name, type) pairs.  Descriptions, requirement lists and the order of
  collections and fields play no part.
\<close>

theorem normalizedString_equal_iff_sameStructure:
  assumes "consistentComparator lc" and "uniqueNames lc s1" and "uniqueNames lc s2"
  shows "(normalizedString lc (schemaValue s1) = normalizedString lc (schemaValue s2))
       = sameStructure s1 s2"
proof
  assume "normalizedString lc (schemaValue s1) = normalizedString lc (schemaValue s2)"
  then have "stringifySchema (normSchemaOf lc s1) = stringifySchema (normSchemaOf lc s2)"
    by (simp add: normalizedString_schemaValue)
  then have "normSchemaOf lc s1 = normSchemaOf lc s2" by (rule stringifySchema_inj)
  then show "sameStructure s1 s2" by (rule normSchemaOf_sameStructure[OF assms(1,3)])
next
  assume "sameStructure s1 s2"
  then have "normSchemaOf lc s1 = normSchemaOf lc s2"
    by (rule sameStructure_normSchemaOf[OF assms])
  then show "normalizedString lc (schemaValue s1) = normalizedString lc (schemaValue s2)"
    by (simp add: normalizedString_schemaValue)
qed

theorem normalizedString_equal_iff_sameStructure_witness:
  "consistentComparator codeUnitCompare
   \<and> uniqueNames codeUnitCompare
        \<lparr>s_collections =
           [mkCollection ''users'' [mkField ''email'' ''String''],
            mkCollection '' posts '' [mkField ''title'' ''String'', mkField '' id'' ''ObjectID '']]\<rparr>
   \<and> uniqueNames codeUnitCompare
        \<lparr>s_collections =
           [\<lparr>c_name = ''posts'', c_description = ''what is written'',
             c_fields = [mkField ''id'' ''ObjectID'', mkField ''title '' ''String''],
             c_relevantRequirements = [''Each user can create multiple posts.'']\<rparr>,
            mkCollection ''users  '' [mkField ''email'' ''String'']]\<rparr>
   \<and> sameStructure
        \<lparr>s_collections =
           [mkCollection ''users'' [mkField ''email'' ''String''],
            mkCollection '' posts '' [mkField ''title'' ''String'', mkField '' id'' ''ObjectID '']]\<rparr>
        \<lparr>s_collections =
           [\<lparr>c_name = ''posts'', c_description = ''what is written'',
             c_fields = [mkField ''id'' ''ObjectID'', mkField ''title '' ''String''],
             c_relevantRequirements = [''Each user can create multiple posts.'']\<rparr>,
            mkCollection ''users  '' [mkField ''email'' ''String'']]\<rparr>
   \<and> normalizedString codeUnitCompare
        (schemaValue \<lparr>s_collections =
           [mkCollection ''users'' [mkField ''email'' ''String''],
            mkCollection '' posts '' [mkField ''title'' ''String'', mkField '' id'' ''ObjectID '']]\<rparr>)
     = normalizedString codeUnitCompare
        (schemaValue \<lparr>s_collections =
           [\<lparr>c_name = ''posts'', c_description = ''what is written'',
             c_fields = [mkField ''id'' ''ObjectID'', mkField ''title '' ''String''],
             c_relevantRequirements = [''Each user can create multiple posts.'']\<rparr>,
            mkCollection ''users  '' [mkField ''email'' ''String'']]\<rparr>)"
proof -
  let ?s1 = "\<lparr>s_collections =
           [mkCollection ''users'' [mkField ''email'' ''String''],
            mkCollection '' posts '' [mkField ''title'' ''String'', mkField '' id'' ''ObjectID '']]\<rparr>"
  let ?s2 = "\<lparr>s_collections =
           [\<lparr>c_name = ''posts'', c_description = ''what is written'',
             c_fields = [mkField ''id'' ''ObjectID'', mkField ''title '' ''String''],
             c_relevantRequirements = [''Each user can create multiple posts.'']\<rparr>,
            mkCollection ''users  '' [mkField ''email'' ''String'']]\<rparr>"
  have h1: "consistentComparator codeUnitCompare" by (rule codeUnitCompare_consistent)
  have h2: "uniqueNames codeUnitCompare ?s1" by code_simp
  have h3: "uniqueNames codeUnitCompare ?s2" by code_simp
  have h4: "normalizedString codeUnitCompare (schemaValue ?s1)
          = normalizedString codeUnitCompare (schemaValue ?s2)" by code_simp
  from normalizedString_equal_iff_sameStructure[OF h1 h2 h3] h4
  have "sameStructure ?s1 ?s2" by blast
  with h1 h2 h3 h4 show ?thesis by blast
qed

text \<open>
  Claim C4, on the failing input.  The declared intent of \<^verbatim>\<open>normalizeSchema\<close> is a
  comparison that does not depend on the order of elements.  The fields are sorted by
  name alone and the sort is stable, so two fields of one name keep their order of
  arrival: the two schemas below differ only in the order of the fields of their one
  collection, and their encodings differ.  The two names are the same string, on which
  every comparator returns zero.
\<close>

theorem normalizedString_tied_names_keep_order:
  "permutedSchema
     \<lparr>s_collections = [mkCollection ''users'' [mkField ''id'' ''String'', mkField ''id'' ''Number'']]\<rparr>
     \<lparr>s_collections = [mkCollection ''users'' [mkField ''id'' ''Number'', mkField ''id'' ''String'']]\<rparr>
   \<and> normalizedString codeUnitCompare
        (schemaValue \<lparr>s_collections =
           [mkCollection ''users'' [mkField ''id'' ''String'', mkField ''id'' ''Number'']]\<rparr>)
     \<noteq> normalizedString codeUnitCompare
        (schemaValue \<lparr>s_collections =
           [mkCollection ''users'' [mkField ''id'' ''Number'', mkField ''id'' ''String'']]\<rparr>)"
proof
  show "permutedSchema
     \<lparr>s_collections = [mkCollection ''users'' [mkField ''id'' ''String'', mkField ''id'' ''Number'']]\<rparr>
     \<lparr>s_collections = [mkCollection ''users'' [mkField ''id'' ''Number'', mkField ''id'' ''String'']]\<rparr>"
    unfolding permutedSchema_def
    by (rule exI[of _ "[mkCollection ''users'' [mkField ''id'' ''String'', mkField ''id'' ''Number'']]"])
       (simp add: permutedCollection_def mkCollection_def)
  show "normalizedString codeUnitCompare
        (schemaValue \<lparr>s_collections =
           [mkCollection ''users'' [mkField ''id'' ''String'', mkField ''id'' ''Number'']]\<rparr>)
     \<noteq> normalizedString codeUnitCompare
        (schemaValue \<lparr>s_collections =
           [mkCollection ''users'' [mkField ''id'' ''Number'', mkField ''id'' ''String'']]\<rparr>)"
    by code_simp
qed

text \<open>
  Where the names are unique the intent is met: the encoding of a schema with unique
  names does not change when its collections, or the fields of any collection, are
  permuted.
\<close>

theorem normalizedString_permutation_invariant:
  assumes "consistentComparator lc" and "uniqueNames lc s" and "permutedSchema s s'"
  shows "normalizedString lc (schemaValue s') = normalizedString lc (schemaValue s)"
  using sameStructure_normSchemaOf[OF assms(1,2) permuted_facts[OF assms]]
  by (simp add: normalizedString_schemaValue)

theorem normalizedString_permutation_invariant_witness:
  "consistentComparator codeUnitCompare
   \<and> uniqueNames codeUnitCompare
        \<lparr>s_collections =
           [mkCollection ''users'' [mkField ''email'' ''String'', mkField ''age'' ''Number''],
            mkCollection ''posts'' [mkField ''title'' ''String'']]\<rparr>
   \<and> permutedSchema
        \<lparr>s_collections =
           [mkCollection ''users'' [mkField ''email'' ''String'', mkField ''age'' ''Number''],
            mkCollection ''posts'' [mkField ''title'' ''String'']]\<rparr>
        \<lparr>s_collections =
           [mkCollection ''posts'' [mkField ''title'' ''String''],
            mkCollection ''users'' [mkField ''age'' ''Number'', mkField ''email'' ''String'']]\<rparr>
   \<and> normalizedString codeUnitCompare
        (schemaValue \<lparr>s_collections =
           [mkCollection ''posts'' [mkField ''title'' ''String''],
            mkCollection ''users'' [mkField ''age'' ''Number'', mkField ''email'' ''String'']]\<rparr>)
     = normalizedString codeUnitCompare
        (schemaValue \<lparr>s_collections =
           [mkCollection ''users'' [mkField ''email'' ''String'', mkField ''age'' ''Number''],
            mkCollection ''posts'' [mkField ''title'' ''String'']]\<rparr>)"
proof -
  let ?s = "\<lparr>s_collections =
           [mkCollection ''users'' [mkField ''email'' ''String'', mkField ''age'' ''Number''],
            mkCollection ''posts'' [mkField ''title'' ''String'']]\<rparr>"
  let ?s' = "\<lparr>s_collections =
           [mkCollection ''posts'' [mkField ''title'' ''String''],
            mkCollection ''users'' [mkField ''age'' ''Number'', mkField ''email'' ''String'']]\<rparr>"
  have h1: "consistentComparator codeUnitCompare" by (rule codeUnitCompare_consistent)
  have h2: "uniqueNames codeUnitCompare ?s" by code_simp
  have h3: "permutedSchema ?s ?s'"
    unfolding permutedSchema_def
    by (rule exI[of _ "[mkCollection ''posts'' [mkField ''title'' ''String''],
                        mkCollection ''users'' [mkField ''email'' ''String'', mkField ''age'' ''Number'']]"])
       (simp add: permutedCollection_def mkCollection_def)
  from normalizedString_permutation_invariant[OF h1 h2 h3] h1 h2 h3 show ?thesis by blast
qed

section \<open>Properties of the grouping\<close>

subsection \<open>The loop\<close>

lemma groupResponse_by_key:
  "groupResponse lc (r, t) (m, out) =
     (case responseKey lc r of
        None \<Rightarrow> Inr (m, out @ [InvalidOrEmpty t])
      | Some (Inl e) \<Rightarrow> Inl e
      | Some (Inr k) \<Rightarrow>
          Inr (if mapHas m k then pushTemperature k t m
               else mapSet k \<lparr>representative = r, temperatures = [t]\<rparr> m,
               out @ [SchemaAtTemp t, NormalizedJSON k]))"
  by (auto simp: groupResponse_def responseKey_def Let_def split: sum.splits)

lemma forEachE_keyed:
  "list_all (\<lambda>p. hasKey lc (fst p)) pairs \<Longrightarrow>
   \<exists>out'. forEachE (groupResponse lc) pairs (m, out) = Inr (foldl (stepMap lc) m pairs, out')"
proof (induction pairs arbitrary: m out)
  case Nil
  then show ?case by simp
next
  case (Cons p ps)
  obtain r t where p: "p = (r, t)" by (cases p)
  from Cons.prems p obtain k where k: "responseKey lc r = Some (Inr k)"
    by (auto simp: hasKey_def split: option.splits sum.splits)
  then have kk: "keyOf lc r = k" by (simp add: keyOf_def)
  have "groupResponse lc p (m, out) = Inr (stepMap lc m p, out @ [SchemaAtTemp t, NormalizedJSON k])"
    using k kk p by (simp add: groupResponse_by_key stepMap_def)
  then show ?case using Cons.IH[of "stepMap lc m p"] Cons.prems by simp
qed

lemma setSpread_snoc:
  "setSpread (xs @ [x]) = (if x \<in> set (setSpread xs) then setSpread xs else setSpread xs @ [x])"
  by (simp add: setSpread_def)

lemma setSpread_Nil [simp]: "setSpread [] = []"
  by (simp add: setSpread_def)

lemma set_setSpread [simp]: "set (setSpread xs) = set xs"
  by (induction xs rule: rev_induct) (auto simp: setSpread_snoc)

lemma distinct_setSpread [simp]: "distinct (setSpread xs)"
  by (induction xs rule: rev_induct) (auto simp: setSpread_snoc)

lemma mapHas_iff: "mapHas m k = (k \<in> fst ` set m)"
  by (simp add: mapHas_def map_of_eq_None_iff)

lemma mapSet_absent: "k \<notin> fst ` set m \<Longrightarrow> mapSet k v m = m @ [(k, v)]"
  by (induction m) auto

lemma pushTemperature_map:
  "pushTemperature k t (map (\<lambda>j. (j, f j)) ks)
   = map (\<lambda>j. (j, if j = k \<and> k \<in> set ks then (f j)\<lparr>temperatures := temperatures (f j) @ [t]\<rparr> else f j)) ks"
  if "distinct ks"
  using that by (induction ks) (auto simp: map_idI)


lemma pairsWithKey_snoc_same:
  "keyOf lc (fst p) = k \<Longrightarrow> pairsWithKey lc (ps @ [p]) k = pairsWithKey lc ps k @ [p]"
  by (simp add: pairsWithKey_def)

lemma pairsWithKey_snoc_other:
  "keyOf lc (fst p) \<noteq> k \<Longrightarrow> pairsWithKey lc (ps @ [p]) k = pairsWithKey lc ps k"
  by (simp add: pairsWithKey_def)

lemma pairsWithKey_empty_iff:
  "(pairsWithKey lc ps k = []) = (k \<notin> set (map (\<lambda>p. keyOf lc (fst p)) ps))"
  by (auto simp: pairsWithKey_def filter_empty_conv)

lemma entryOfKey_snoc_other:
  "keyOf lc (fst p) \<noteq> k \<Longrightarrow> entryOfKey lc (ps @ [p]) k = entryOfKey lc ps k"
  by (simp add: entryOfKey_def pairsWithKey_snoc_other)

lemma entryOfKey_snoc_present:
  assumes "keyOf lc (fst p) = k" "k \<in> set (map (\<lambda>p. keyOf lc (fst p)) ps)"
  shows "entryOfKey lc (ps @ [p]) k
       = (entryOfKey lc ps k)\<lparr>temperatures := temperatures (entryOfKey lc ps k) @ [snd p]\<rparr>"
proof -
  have "pairsWithKey lc ps k \<noteq> []" using assms(2) pairsWithKey_empty_iff[of lc ps k] by simp
  then show ?thesis using assms(1) by (simp add: entryOfKey_def pairsWithKey_snoc_same)
qed

lemma entryOfKey_snoc_new:
  assumes "keyOf lc (fst p) = k" "k \<notin> set (map (\<lambda>p. keyOf lc (fst p)) ps)"
  shows "entryOfKey lc (ps @ [p]) k = \<lparr>representative = fst p, temperatures = [snd p]\<rparr>"
proof -
  have "pairsWithKey lc ps k = []" using assms(2) pairsWithKey_empty_iff[of lc ps k] by simp
  then show ?thesis using assms(1) by (simp add: entryOfKey_def pairsWithKey_snoc_same)
qed

lemma foldl_stepMap:
  "foldl (stepMap lc) [] pairs
   = map (\<lambda>k. (k, entryOfKey lc pairs k)) (setSpread (map (\<lambda>p. keyOf lc (fst p)) pairs))"
proof (induction pairs rule: rev_induct)
  case Nil
  then show ?case by simp
next
  case (snoc p ps)
  let ?keys = "map (\<lambda>p. keyOf lc (fst p)) ps"
  let ?k = "keyOf lc (fst p)"
  let ?M = "map (\<lambda>k. (k, entryOfKey lc ps k)) (setSpread ?keys)"
  have "map fst ?M = setSpread ?keys" by (simp add: comp_def)
  then have "set (map fst ?M) = set ?keys" by (simp only: set_setSpread)
  then have fstM: "fst ` set ?M = set ?keys" by (simp only: set_map)
  have step: "foldl (stepMap lc) [] (ps @ [p]) = stepMap lc ?M p" using snoc.IH by simp
  show ?case
  proof (cases "?k \<in> set ?keys")
    case True
    then have "?k \<in> fst ` set ?M" using fstM by simp
    then have has: "mapHas ?M ?k" by (simp only: mapHas_iff)
    have sp: "setSpread (map (\<lambda>p. keyOf lc (fst p)) (ps @ [p])) = setSpread ?keys"
      using True by (simp add: setSpread_snoc)
    have "stepMap lc ?M p = pushTemperature ?k (snd p) ?M" using has by (simp add: stepMap_def)
    also have "\<dots> = map (\<lambda>j. (j, if j = ?k \<and> ?k \<in> set (setSpread ?keys)
          then (entryOfKey lc ps j)\<lparr>temperatures := temperatures (entryOfKey lc ps j) @ [snd p]\<rparr>
          else entryOfKey lc ps j)) (setSpread ?keys)"
      by (rule pushTemperature_map) simp
    also have "\<dots> = map (\<lambda>k. (k, entryOfKey lc (ps @ [p]) k)) (setSpread ?keys)"
    proof (rule map_cong[OF refl])
      fix j assume "j \<in> set (setSpread ?keys)"
      show "(j, if j = ?k \<and> ?k \<in> set (setSpread ?keys)
          then (entryOfKey lc ps j)\<lparr>temperatures := temperatures (entryOfKey lc ps j) @ [snd p]\<rparr>
          else entryOfKey lc ps j) = (j, entryOfKey lc (ps @ [p]) j)"
      proof (cases "j = ?k")
        case True
        then show ?thesis using \<open>?k \<in> set ?keys\<close> entryOfKey_snoc_present[of lc p j ps] by simp
      next
        case False
        then show ?thesis using entryOfKey_snoc_other[of lc p j ps] by simp
      qed
    qed
    finally show ?thesis using step sp by simp
  next
    case False
    then have nin: "?k \<notin> fst ` set ?M" using fstM by simp
    then have has: "\<not> mapHas ?M ?k" by (simp only: mapHas_iff not_False_eq_True)
    have sp: "setSpread (map (\<lambda>p. keyOf lc (fst p)) (ps @ [p])) = setSpread ?keys @ [?k]"
      using False by (simp add: setSpread_snoc)
    have "stepMap lc ?M p = mapSet ?k \<lparr>representative = fst p, temperatures = [snd p]\<rparr> ?M"
      using has by (simp only: stepMap_def if_False)
    then have "stepMap lc ?M p = ?M @ [(?k, \<lparr>representative = fst p, temperatures = [snd p]\<rparr>)]"
      using mapSet_absent[OF nin] by simp
    moreover have "map (\<lambda>k. (k, entryOfKey lc (ps @ [p]) k)) (setSpread ?keys) = ?M"
    proof (rule map_cong[OF refl])
      fix j assume "j \<in> set (setSpread ?keys)"
      then have "j \<in> set ?keys" by (simp only: set_setSpread)
      then have "j \<noteq> ?k" using False by blast
      then show "(j, entryOfKey lc (ps @ [p]) j) = (j, entryOfKey lc ps j)"
        using entryOfKey_snoc_other[of lc p j ps] by simp
    qed
    moreover have "entryOfKey lc (ps @ [p]) ?k = \<lparr>representative = fst p, temperatures = [snd p]\<rparr>"
      using entryOfKey_snoc_new[of lc p ?k ps] False by simp
    ultimately show ?thesis using step sp by simp
  qed
qed

lemma withCount_entryOfKey: "withCount (entryOfKey lc pairs k) = groupOfKey lc pairs k"
  by (simp add: withCount_def entryOfKey_def groupOfKey_def)

lemma map_withCount_foldl:
  "map (\<lambda>kv. withCount (snd kv)) (foldl (stepMap lc) [] pairs) = groupsInInsertionOrder lc pairs"
  by (simp add: foldl_stepMap groupsInInsertionOrder_def comp_def withCount_entryOfKey)

subsection \<open>Sorting the groups\<close>

lemma insertSorted_stable:
  assumes tie: "\<And>a b. \<not> cmp a b \<le> 0 \<Longrightarrow> key a \<noteq> key b"
  shows "filter (\<lambda>y. key y = c) (insertSorted cmp x xs) = filter (\<lambda>y. key y = c) (x # xs)"
proof (induction xs)
  case Nil
  then show ?case by simp
next
  case (Cons y ys)
  show ?case
  proof (cases "cmp x y \<le> 0")
    case True
    then show ?thesis by simp
  next
    case False
    then have "key x \<noteq> key y" by (rule tie)
    then show ?thesis using False Cons.IH by auto
  qed
qed

lemma arraySort_stable:
  assumes tie: "\<And>a b. \<not> cmp a b \<le> 0 \<Longrightarrow> key a \<noteq> key b"
  shows "filter (\<lambda>y. key y = c) (arraySort cmp xs) = filter (\<lambda>y. key y = c) xs"
proof (induction xs)
  case Nil
  then show ?case by simp
next
  case (Cons x xs)
  have "filter (\<lambda>y. key y = c) (arraySort cmp (x # xs))
      = filter (\<lambda>y. key y = c) (x # arraySort cmp xs)"
    unfolding arraySort_Cons by (rule insertSorted_stable[OF tie])
  then show ?case using Cons.IH by simp
qed

lemma byCount_consistent:
  "consistentComparator (\<lambda>a b :: 't RobustnessGroup. int (count b) - int (count a))"
  unfolding consistentComparator_def by auto

lemma formatGroups_props:
  fixes m :: "'t groupMap"
  defines "gs \<equiv> map (\<lambda>kv. withCount (snd kv)) m"
  shows "mset (formatGroups m) = mset gs"
    and "sorted_wrt (\<lambda>a b. count b \<le> count a) (formatGroups m)"
    and "filter (\<lambda>g. count g = c) (formatGroups m) = filter (\<lambda>g. count g = c) gs"
proof -
  show "mset (formatGroups m) = mset gs" by (simp add: formatGroups_def gs_def mset_arraySort)
  have "sortedBy (\<lambda>a b :: 't RobustnessGroup. int (count b) - int (count a)) (formatGroups m)"
    unfolding formatGroups_def by (rule sortedBy_arraySort[OF byCount_consistent])
  then show "sorted_wrt (\<lambda>a b. count b \<le> count a) (formatGroups m)" by simp
  show "filter (\<lambda>g. count g = c) (formatGroups m) = filter (\<lambda>g. count g = c) gs"
    unfolding formatGroups_def gs_def by (rule arraySort_stable) simp
qed

lemma groupAndScore_keyed:
  assumes "list_all (\<lambda>p. hasKey lc (fst p)) pairs"
  shows "\<exists>res. groupAndScore lc pairs = Inr res \<and>
           robustnessComparisonGroups res = formatGroups (foldl (stepMap lc) [] pairs) \<and>
           robustnessScore res = scoreOf (maxCountOf (robustnessComparisonGroups res))"
proof -
  obtain out' where "forEachE (groupResponse lc) pairs ([], [DebugHeader])
      = Inr (foldl (stepMap lc) [] pairs, out')"
    using forEachE_keyed[OF assms, of "[]" "[DebugHeader]"] by blast
  then show ?thesis by (simp add: groupAndScore_def Let_def)
qed

subsection \<open>Keys and groups\<close>

lemma hasKey_responseValue: "hasKey lc (responseValue r)"
  by (simp add: hasKey_def responseKey_def responseValue_def schemaValue_def normalizedString_schemaValue[unfolded schemaValue_def])

lemma keyOf_responseValue:
  "keyOf lc (responseValue r) = stringifySchema (normSchemaOf lc (r_schema r))"
  by (simp add: keyOf_def responseKey_def responseValue_def schemaValue_def normalizedString_schemaValue[unfolded schemaValue_def])

lemma pairsWithKey_hd:
  assumes "k \<in> set (map (\<lambda>p. keyOf lc (fst p)) pairs)"
  shows "keyOf lc (fst (hd (pairsWithKey lc pairs k))) = k"
proof -
  have ne: "pairsWithKey lc pairs k \<noteq> []" using assms pairsWithKey_empty_iff[of lc pairs k] by simp
  then have "hd (pairsWithKey lc pairs k) \<in> set (pairsWithKey lc pairs k)" by (rule hd_in_set)
  then show ?thesis by (simp add: pairsWithKey_def)
qed

lemma groupKeys_insertion:
  "map (\<lambda>g. keyOf lc (representative g)) (groupsInInsertionOrder lc pairs)
   = setSpread (map (\<lambda>p. keyOf lc (fst p)) pairs)"
proof -
  have "map (\<lambda>k. keyOf lc (representative (groupOfKey lc pairs k))) (setSpread (map (\<lambda>p. keyOf lc (fst p)) pairs))
      = map (\<lambda>k. k) (setSpread (map (\<lambda>p. keyOf lc (fst p)) pairs))"
  proof (rule map_cong[OF refl])
    fix k assume "k \<in> set (setSpread (map (\<lambda>p. keyOf lc (fst p)) pairs))"
    then have "k \<in> set (map (\<lambda>p. keyOf lc (fst p)) pairs)" by (simp only: set_setSpread)
    then show "keyOf lc (representative (groupOfKey lc pairs k)) = k"
      using pairsWithKey_hd[of k lc pairs] by (simp add: groupOfKey_def)
  qed
  then show ?thesis by (simp add: groupsInInsertionOrder_def comp_def)
qed

lemma insertion_groups_are_groupOfKey:
  assumes "g \<in> set (groupsInInsertionOrder lc pairs)"
  shows "g = groupOfKey lc pairs (keyOf lc (representative g))"
proof -
  from assms obtain k where k: "k \<in> set (map (\<lambda>p. keyOf lc (fst p)) pairs)" "g = groupOfKey lc pairs k"
    unfolding groupsInInsertionOrder_def by (auto simp only: set_map set_setSpread)
  then have "keyOf lc (representative g) = k"
    using pairsWithKey_hd[of k lc pairs] by (simp add: groupOfKey_def)
  then show ?thesis using k(2) by simp
qed

subsection \<open>The score\<close>

lemma forEachE_invalid:
  "list_all (\<lambda>p. responseKey lc (fst p) = None) pairs \<Longrightarrow>
   forEachE (groupResponse lc) pairs (m, out) = Inr (m, out @ map (\<lambda>p. InvalidOrEmpty (snd p)) pairs)"
proof (induction pairs arbitrary: out)
  case Nil
  then show ?case by simp
next
  case (Cons p ps)
  obtain r t where p: "p = (r, t)" by (cases p)
  then have "groupResponse lc p (m, out) = Inr (m, out @ [InvalidOrEmpty t])"
    using Cons.prems by (simp add: groupResponse_by_key)
  then show ?case using Cons.IH[of "out @ [InvalidOrEmpty t]"] Cons.prems p by simp
qed

lemma formatGroups_Nil [simp]: "formatGroups [] = []"
  by (simp add: formatGroups_def)

lemma groupAndScore_all_invalid:
  assumes "list_all (\<lambda>p. responseKey lc (fst p) = None) pairs"
  shows "\<exists>res. groupAndScore lc pairs = Inr res \<and> robustnessComparisonGroups res = [] \<and>
           robustnessScore res = 0"
  using forEachE_invalid[OF assms, of "[]" "[DebugHeader]"]
  by (simp add: groupAndScore_def maxCountOf_def scoreOf_def)

lemma setSpread_seen:
  "\<forall>x \<in> set xs. x \<in> set acc \<Longrightarrow>
   foldl (\<lambda>acc x. if x \<in> set acc then acc else acc @ [x]) acc xs = acc"
  by (induction xs) auto

lemma setSpread_same:
  assumes "xs \<noteq> []" "\<forall>x \<in> set xs. x = k"
  shows "setSpread xs = [k]"
proof -
  obtain ys where xs: "xs = k # ys" using assms by (cases xs) auto
  then have "\<forall>x \<in> set ys. x \<in> set [k]" using assms(2) by simp
  then show ?thesis unfolding setSpread_def xs using setSpread_seen[of ys "[k]"] by simp
qed

lemma groupAndScore_all_same:
  assumes n: "length pairs = 5"
    and k: "list_all (\<lambda>p. hasKey lc (fst p) \<and> keyOf lc (fst p) = k) pairs"
  shows "\<exists>res g. groupAndScore lc pairs = Inr res \<and> robustnessComparisonGroups res = [g] \<and>
           count g = 5 \<and> keyOf lc (representative g) = k \<and> robustnessScore res = 100"
proof -
  have keyed: "list_all (\<lambda>p. hasKey lc (fst p)) pairs" using k by (simp add: list_all_iff)
  obtain res where res: "groupAndScore lc pairs = Inr res"
    "robustnessComparisonGroups res = formatGroups (foldl (stepMap lc) [] pairs)"
    "robustnessScore res = scoreOf (maxCountOf (robustnessComparisonGroups res))"
    using groupAndScore_keyed[OF keyed] by blast
  have ne: "map (\<lambda>p. keyOf lc (fst p)) pairs \<noteq> []" using n by auto
  have "\<forall>x \<in> set (map (\<lambda>p. keyOf lc (fst p)) pairs). x = k" using k by (auto simp: list_all_iff)
  then have sp: "setSpread (map (\<lambda>p. keyOf lc (fst p)) pairs) = [k]"
    using setSpread_same[OF ne] by blast
  have all: "pairsWithKey lc pairs k = pairs"
    using k by (simp add: pairsWithKey_def list_all_iff)
  have ins: "groupsInInsertionOrder lc pairs = [groupOfKey lc pairs k]"
    by (simp add: groupsInInsertionOrder_def sp)
  have "formatGroups (foldl (stepMap lc) [] pairs)
      = arraySort (\<lambda>a b. int (count b) - int (count a)) (groupsInInsertionOrder lc pairs)"
    by (simp add: formatGroups_def map_withCount_foldl)
  then have G: "robustnessComparisonGroups res = [groupOfKey lc pairs k]"
    using res(2) ins by (simp add: arraySort_def)
  have c: "count (groupOfKey lc pairs k) = 5" using all n by (simp add: groupOfKey_def)
  have kk: "keyOf lc (representative (groupOfKey lc pairs k)) = k"
    using pairsWithKey_hd[of k lc pairs] ne \<open>\<forall>x \<in> set (map (\<lambda>p. keyOf lc (fst p)) pairs). x = k\<close>
    by (metis groupOfKey_def RobustnessGroup.select_convs(1) groupEntry.select_convs(1) hd_in_set)
  show ?thesis using res(1,3) G c kk by (simp add: maxCountOf_def scoreOf_def)
qed

lemma maxCountOf_largest:
  assumes "sorted_wrt (\<lambda>a b. count b \<le> count a) gs" "g \<in> set gs"
  shows "count g \<le> maxCountOf gs"
  using assms by (cases gs) (auto simp: maxCountOf_def)

lemma groupAndScore_result:
  assumes "groupAndScore lc pairs = Inr res"
  shows "robustnessScore res = scoreOf (maxCountOf (robustnessComparisonGroups res))"
    and "\<forall>g \<in> set (robustnessComparisonGroups res). count g \<le> maxCountOf (robustnessComparisonGroups res)"
proof -
  from assms obtain st where st: "forEachE (groupResponse lc) pairs ([], [DebugHeader]) = Inr st"
    and r: "res = \<lparr>robustnessComparisonGroups = formatGroups (fst st),
               robustnessScore = scoreOf (maxCountOf (formatGroups (fst st))),
               console = snd st @ [DebugFooter]\<rparr>"
    by (auto simp: groupAndScore_def Let_def split: sum.splits)
  show "robustnessScore res = scoreOf (maxCountOf (robustnessComparisonGroups res))"
    using r by simp
  have "sorted_wrt (\<lambda>a b. count b \<le> count a) (formatGroups (fst st))"
    by (rule formatGroups_props(2))
  then show "\<forall>g \<in> set (robustnessComparisonGroups res). count g \<le> maxCountOf (robustnessComparisonGroups res)"
    using r maxCountOf_largest by auto
qed

lemma groupAndScore_one_group:
  assumes n: "length pairs = 5"
    and k: "list_all (\<lambda>p. hasKey lc (fst p) \<and> keyOf lc (fst p) = k) pairs"
  shows "\<exists>res. groupAndScore lc pairs = Inr res \<and>
           robustnessComparisonGroups res
             = [\<lparr>representative = fst (hd pairs), temperatures = map snd pairs, count = 5\<rparr>] \<and>
           robustnessScore res = 100"
proof -
  have keyed: "list_all (\<lambda>p. hasKey lc (fst p)) pairs" using k by (simp add: list_all_iff)
  obtain res where res: "groupAndScore lc pairs = Inr res"
    "robustnessComparisonGroups res = formatGroups (foldl (stepMap lc) [] pairs)"
    "robustnessScore res = scoreOf (maxCountOf (robustnessComparisonGroups res))"
    using groupAndScore_keyed[OF keyed] by blast
  have ne: "map (\<lambda>p. keyOf lc (fst p)) pairs \<noteq> []" using n by auto
  have "\<forall>x \<in> set (map (\<lambda>p. keyOf lc (fst p)) pairs). x = k" using k by (auto simp: list_all_iff)
  then have sp: "setSpread (map (\<lambda>p. keyOf lc (fst p)) pairs) = [k]"
    using setSpread_same[OF ne] by blast
  have all: "pairsWithKey lc pairs k = pairs"
    using k by (simp add: pairsWithKey_def list_all_iff)
  have ins: "groupsInInsertionOrder lc pairs = [groupOfKey lc pairs k]"
    by (simp add: groupsInInsertionOrder_def sp)
  have "formatGroups (foldl (stepMap lc) [] pairs)
      = arraySort (\<lambda>a b. int (count b) - int (count a)) (groupsInInsertionOrder lc pairs)"
    by (simp add: formatGroups_def map_withCount_foldl)
  then have G: "robustnessComparisonGroups res = [groupOfKey lc pairs k]"
    using res(2) ins by (simp add: arraySort_def)
  have g: "groupOfKey lc pairs k
         = \<lparr>representative = fst (hd pairs), temperatures = map snd pairs, count = 5\<rparr>"
    using all n by (simp add: groupOfKey_def)
  show ?thesis using res(1,3) G g by (simp add: maxCountOf_def scoreOf_def)
qed

lemma withTemperatures_facts:
  shows "length (withTemperatures rs) = length rs"
    and "map fst (withTemperatures rs) = rs"
    and "map snd (withTemperatures rs) = map temperatureAt [0..<length rs]"
  by (simp_all add: withTemperatures_def comp_def map_nth)

lemma five_temperatures: "map temperatureAt [0..<5] = map Some temperatureList"
  by code_simp

lemma handleRobustnessTest_same_structure:
  assumes c: "consistentComparator lc"
    and n: "length rs = 5"
    and u: "list_all (\<lambda>r. uniqueNames lc (r_schema r)) rs"
    and s: "list_all (\<lambda>r. list_all (\<lambda>r'. sameStructure (r_schema r) (r_schema r')) rs) rs"
  shows "\<exists>res. handleRobustnessTest lc (map responseValue rs) = Inr res \<and>
           robustnessComparisonGroups res
             = [\<lparr>representative = responseValue (hd rs),
                 temperatures = map Some temperatureList, count = 5\<rparr>] \<and>
           robustnessScore res = 100"
proof -
  let ?pairs = "withTemperatures (map responseValue rs)"
  let ?k = "keyOf lc (responseValue (hd rs))"
  have ne: "rs \<noteq> []" using n by auto
  then have h: "hd rs \<in> set rs" by simp
  have key: "keyOf lc (responseValue r) = ?k" if r: "r \<in> set rs" for r
  proof -
    have "sameStructure (r_schema (hd rs)) (r_schema r)" using s h r by (simp add: list_all_iff)
    moreover have "uniqueNames lc (r_schema (hd rs))" "uniqueNames lc (r_schema r)"
      using u h r by (simp_all add: list_all_iff)
    ultimately have "normSchemaOf lc (r_schema (hd rs)) = normSchemaOf lc (r_schema r)"
      using sameStructure_normSchemaOf[OF c] by blast
    then show ?thesis by (simp add: keyOf_responseValue)
  qed
  have fst_in: "fst p \<in> responseValue ` set rs" if "p \<in> set ?pairs" for p
  proof -
    from that have "fst p \<in> set (map fst ?pairs)" by simp
    then show ?thesis by (simp add: withTemperatures_facts(2))
  qed
  have k: "list_all (\<lambda>p. hasKey lc (fst p) \<and> keyOf lc (fst p) = ?k) ?pairs"
    unfolding list_all_iff using fst_in key hasKey_responseValue by fastforce
  have len: "length ?pairs = 5" using n by (simp add: withTemperatures_facts(1))
  from groupAndScore_one_group[OF len k] obtain res where res:
    "groupAndScore lc ?pairs = Inr res"
    "robustnessComparisonGroups res
       = [\<lparr>representative = fst (hd ?pairs), temperatures = map snd ?pairs, count = 5\<rparr>]"
    "robustnessScore res = 100"
    by blast
  have "?pairs \<noteq> []" using len by auto
  then have "fst (hd ?pairs) = hd (map fst ?pairs)" by (simp add: hd_map)
  then have r1: "fst (hd ?pairs) = responseValue (hd rs)"
    using ne by (simp add: withTemperatures_facts(2) hd_map)
  have r2: "map snd ?pairs = map Some temperatureList"
    using n by (simp add: withTemperatures_facts(3) five_temperatures)
  show ?thesis using res r1 r2 by (simp add: handleRobustnessTest_def)
qed

subsection \<open>Discarded pairs\<close>

lemma forEachE_skip_invalid:
  "map_sum id fst (forEachE (groupResponse lc) pairs (m, out))
   = map_sum id fst
       (forEachE (groupResponse lc) (filter (\<lambda>p. responseKey lc (fst p) \<noteq> None) pairs) (m, out'))"
proof (induction pairs arbitrary: m out out')
  case Nil
  then show ?case by simp
next
  case (Cons p ps)
  obtain r t where p: "p = (r, t)" by (cases p)
  show ?case
  proof (cases "responseKey lc r")
    case None
    then have "groupResponse lc p (m, out) = Inr (m, out @ [InvalidOrEmpty t])"
      using p by (simp add: groupResponse_by_key)
    then show ?thesis using None p Cons.IH[of m "out @ [InvalidOrEmpty t]" out'] by simp
  next
    case (Some a)
    show ?thesis
    proof (cases a)
      case (Inl e)
      then show ?thesis using Some p by (simp add: groupResponse_by_key)
    next
      case (Inr k)
      let ?m' = "if mapHas m k then pushTemperature k t m
                 else mapSet k \<lparr>representative = r, temperatures = [t]\<rparr> m"
      have "groupResponse lc p (m, out) = Inr (?m', out @ [SchemaAtTemp t, NormalizedJSON k])"
        and "groupResponse lc p (m, out') = Inr (?m', out' @ [SchemaAtTemp t, NormalizedJSON k])"
        using Some Inr p by (simp_all add: groupResponse_by_key)
      then show ?thesis
        using Some p Cons.IH[of ?m' "out @ [SchemaAtTemp t, NormalizedJSON k]"
            "out' @ [SchemaAtTemp t, NormalizedJSON k]"]
        by simp
    qed
  qed
qed

lemma groupAndScore_by_map:
  "map_sum id groupsAndScoreOf (groupAndScore lc pairs)
   = map_sum id (\<lambda>m. (formatGroups m, scoreOf (maxCountOf (formatGroups m))))
       (map_sum id fst (forEachE (groupResponse lc) pairs ([], [DebugHeader])))"
  by (simp add: groupAndScore_def groupsAndScoreOf_def Let_def split: sum.splits)

lemma groupAndScore_skip_invalid:
  "map_sum id groupsAndScoreOf (groupAndScore lc pairs)
   = map_sum id groupsAndScoreOf
       (groupAndScore lc (filter (\<lambda>p. responseKey lc (fst p) \<noteq> None) pairs))"
  unfolding groupAndScore_by_map
  using forEachE_skip_invalid[of lc pairs "[]" "[DebugHeader]" "[DebugHeader]"] by simp

lemma forEachE_console:
  "forEachE (groupResponse lc) pairs (m, out) = Inr (m', out') \<Longrightarrow>
   filter isInvalidEntry out'
   = filter isInvalidEntry out
     @ map (\<lambda>p. InvalidOrEmpty (snd p)) (filter (\<lambda>p. responseKey lc (fst p) = None) pairs)"
proof (induction pairs arbitrary: m out)
  case Nil
  then show ?case by simp
next
  case (Cons p ps)
  obtain r t where p: "p = (r, t)" by (cases p)
  show ?case
  proof (cases "responseKey lc r")
    case None
    then have "groupResponse lc p (m, out) = Inr (m, out @ [InvalidOrEmpty t])"
      using p by (simp add: groupResponse_by_key)
    then have "forEachE (groupResponse lc) ps (m, out @ [InvalidOrEmpty t]) = Inr (m', out')"
      using Cons.prems by simp
    from Cons.IH[OF this] show ?thesis using None p by simp
  next
    case (Some a)
    show ?thesis
    proof (cases a)
      case (Inl e)
      then show ?thesis using Some p Cons.prems by (simp add: groupResponse_by_key)
    next
      case (Inr k)
      let ?m' = "if mapHas m k then pushTemperature k t m
                 else mapSet k \<lparr>representative = r, temperatures = [t]\<rparr> m"
      have "groupResponse lc p (m, out) = Inr (?m', out @ [SchemaAtTemp t, NormalizedJSON k])"
        using Some Inr p by (simp add: groupResponse_by_key)
      then have "forEachE (groupResponse lc) ps (?m', out @ [SchemaAtTemp t, NormalizedJSON k])
               = Inr (m', out')"
        using Cons.prems by simp
      from Cons.IH[OF this] show ?thesis using Some p by simp
    qed
  qed
qed

lemma groupAndScore_console:
  assumes "groupAndScore lc pairs = Inr res"
  shows "filter isInvalidEntry (console res)
       = map (\<lambda>p. InvalidOrEmpty (snd p)) (filter (\<lambda>p. responseKey lc (fst p) = None) pairs)"
proof -
  from assms obtain m' out' where st: "forEachE (groupResponse lc) pairs ([], [DebugHeader]) = Inr (m', out')"
    and r: "console res = out' @ [DebugFooter]"
    by (auto simp: groupAndScore_def Let_def split: sum.splits)
  from forEachE_console[OF st] show ?thesis using r by simp
qed

lemma responseKey_absent:
  "missingOrNull r \<or> (getProp r ''schema'' = Inr sv \<and> missingOrNull sv) \<Longrightarrow> responseKey lc r = None"
  by (auto simp: responseKey_def missingOrNull_def)

subsection \<open>The claims on the grouping\<close>

text \<open>
  Claim C2.  For pairs whose responses all have a schema with a key, the grouping returns
  a result whose groups hold exactly one group per distinct key (the keys of the
  representatives are distinct and are the keys of the pairs).  The representative of a
  group is the first response processed with its key, its temperatures are those of the
  pairs with that key in the order processed, and its count is their number.  The groups
  are sorted by count, largest first, and the groups of one count stand in the order in
  which their keys were first inserted.
\<close>

theorem grouping_by_normalized_key:
  assumes "list_all (\<lambda>p. hasKey lc (fst p)) pairs"
  shows "\<exists>res. groupAndScore lc pairs = Inr res \<and>
           distinct (map (\<lambda>g. keyOf lc (representative g)) (robustnessComparisonGroups res)) \<and>
           set (map (\<lambda>g. keyOf lc (representative g)) (robustnessComparisonGroups res))
             = set (map (\<lambda>p. keyOf lc (fst p)) pairs) \<and>
           (\<forall>g \<in> set (robustnessComparisonGroups res).
              representative g = fst (hd (pairsWithKey lc pairs (keyOf lc (representative g)))) \<and>
              temperatures g = map snd (pairsWithKey lc pairs (keyOf lc (representative g))) \<and>
              count g = length (temperatures g)) \<and>
           sorted_wrt (\<lambda>a b. count b \<le> count a) (robustnessComparisonGroups res) \<and>
           (\<forall>c. filter (\<lambda>g. count g = c) (robustnessComparisonGroups res)
                = filter (\<lambda>g. count g = c) (groupsInInsertionOrder lc pairs))"
proof -
  obtain res where res: "groupAndScore lc pairs = Inr res"
    "robustnessComparisonGroups res = formatGroups (foldl (stepMap lc) [] pairs)"
    using groupAndScore_keyed[OF assms] by blast
  let ?G = "robustnessComparisonGroups res"
  let ?I = "groupsInInsertionOrder lc pairs"
  have m: "mset ?G = mset ?I"
    and s: "sorted_wrt (\<lambda>a b. count b \<le> count a) ?G"
    and t: "\<And>c. filter (\<lambda>g. count g = c) ?G = filter (\<lambda>g. count g = c) ?I"
    using res(2) formatGroups_props[where m = "foldl (stepMap lc) [] pairs"]
    by (simp_all add: map_withCount_foldl)
  have "mset (map (\<lambda>g. keyOf lc (representative g)) ?G)
      = mset (setSpread (map (\<lambda>p. keyOf lc (fst p)) pairs))"
    using m groupKeys_insertion[of lc pairs] by (metis mset_map)
  then have d: "distinct (map (\<lambda>g. keyOf lc (representative g)) ?G)"
    and e: "set (map (\<lambda>g. keyOf lc (representative g)) ?G) = set (map (\<lambda>p. keyOf lc (fst p)) pairs)"
    using distinct_setSpread mset_eq_imp_distinct_iff mset_eq_setD set_setSpread by metis+
  have g: "\<forall>g \<in> set ?G.
              representative g = fst (hd (pairsWithKey lc pairs (keyOf lc (representative g)))) \<and>
              temperatures g = map snd (pairsWithKey lc pairs (keyOf lc (representative g))) \<and>
              count g = length (temperatures g)"
  proof
    fix g assume "g \<in> set ?G"
    then have "g \<in> set ?I" using m by (metis mset_eq_setD)
    then have "g = groupOfKey lc pairs (keyOf lc (representative g))"
      by (rule insertion_groups_are_groupOfKey)
    then show "representative g = fst (hd (pairsWithKey lc pairs (keyOf lc (representative g)))) \<and>
              temperatures g = map snd (pairsWithKey lc pairs (keyOf lc (representative g))) \<and>
              count g = length (temperatures g)"
      by (metis (no_types, lifting) groupOfKey_def RobustnessGroup.select_convs(1) groupEntry.select_convs(1,2) length_map)
  qed
  show ?thesis using res(1) d e g s t by blast
qed

theorem grouping_by_normalized_key_witness:
  "list_all (\<lambda>p. hasKey codeUnitCompare (fst p)) (withTemperatures [sampleResponse ''posts'' ''a'', sampleResponse ''users'' ''b'',
        sampleResponse '' posts'' ''c'', sampleResponse ''users '' ''d'',
        sampleResponse ''posts '' ''e''])
   \<and> (\<exists>res. groupAndScore codeUnitCompare (withTemperatures [sampleResponse ''posts'' ''a'', sampleResponse ''users'' ''b'',
        sampleResponse '' posts'' ''c'', sampleResponse ''users '' ''d'',
        sampleResponse ''posts '' ''e'']) = Inr res \<and>
          distinct (map (\<lambda>g. keyOf codeUnitCompare (representative g)) (robustnessComparisonGroups res)) \<and>
          sorted_wrt (\<lambda>a b. count b \<le> count a) (robustnessComparisonGroups res))
   \<and> map_sum id (\<lambda>res. map (\<lambda>g. (temperatures g, count g)) (robustnessComparisonGroups res))
        (handleRobustnessTest codeUnitCompare [sampleResponse ''posts'' ''a'', sampleResponse ''users'' ''b'',
        sampleResponse '' posts'' ''c'', sampleResponse ''users '' ''d'',
        sampleResponse ''posts '' ''e''])
     = Inr [([Some (5 / 10), Some (7 / 10), Some (9 / 10)], 3), ([Some (6 / 10), Some (8 / 10)], 2)]"
proof -
  let ?P = "withTemperatures [sampleResponse ''posts'' ''a'', sampleResponse ''users'' ''b'',
        sampleResponse '' posts'' ''c'', sampleResponse ''users '' ''d'',
        sampleResponse ''posts '' ''e'']"
  have h: "list_all (\<lambda>p. hasKey codeUnitCompare (fst p)) ?P" by code_simp
  have e: "map_sum id (\<lambda>res. map (\<lambda>g. (temperatures g, count g)) (robustnessComparisonGroups res))
        (handleRobustnessTest codeUnitCompare [sampleResponse ''posts'' ''a'', sampleResponse ''users'' ''b'',
        sampleResponse '' posts'' ''c'', sampleResponse ''users '' ''d'',
        sampleResponse ''posts '' ''e''])
     = Inr [([Some (5 / 10), Some (7 / 10), Some (9 / 10)], 3), ([Some (6 / 10), Some (8 / 10)], 2)]"
    by code_simp
  from grouping_by_normalized_key[OF h]
  have "\<exists>res. groupAndScore codeUnitCompare ?P = Inr res \<and>
          distinct (map (\<lambda>g. keyOf codeUnitCompare (representative g)) (robustnessComparisonGroups res)) \<and>
          sorted_wrt (\<lambda>a b. count b \<le> count a) (robustnessComparisonGroups res)"
    by blast
  with h e show ?thesis by blast
qed

text \<open>
  Claim C3, as stated: five responses that are structurally identical give exactly one
  group of count 5 and the score 100.  It fails where a field is listed twice: the
  normaliser keeps both entries, so a schema with the field once and one with it twice
  have the same sets of names and pairs and different keys.  The five responses below
  all have the same structure, and they fall into two groups, of counts 3 and 2, with
  the score 50.
\<close>

theorem robustness_score_repeated_field_two_groups:
  "list_all
     (\<lambda>r. list_all (\<lambda>r'. sameStructure (r_schema r) (r_schema r'))
        [responseWith [mkField ''id'' ''String''],
         responseWith [mkField ''id'' ''String'', mkField ''id'' ''String''],
         responseWith [mkField ''id'' ''String''],
         responseWith [mkField ''id'' ''String'', mkField ''id'' ''String''],
         responseWith [mkField ''id'' ''String'']])
     [responseWith [mkField ''id'' ''String''],
      responseWith [mkField ''id'' ''String'', mkField ''id'' ''String''],
      responseWith [mkField ''id'' ''String''],
      responseWith [mkField ''id'' ''String'', mkField ''id'' ''String''],
      responseWith [mkField ''id'' ''String'']]
   \<and> map_sum id
        (\<lambda>res. (map (\<lambda>g. (temperatures g, count g)) (robustnessComparisonGroups res),
                 robustnessScore res))
        (handleRobustnessTest codeUnitCompare
           (map responseValue
              [responseWith [mkField ''id'' ''String''],
               responseWith [mkField ''id'' ''String'', mkField ''id'' ''String''],
               responseWith [mkField ''id'' ''String''],
               responseWith [mkField ''id'' ''String'', mkField ''id'' ''String''],
               responseWith [mkField ''id'' ''String'']]))
     = Inr ([([Some (5 / 10), Some (7 / 10), Some (9 / 10)], 3),
             ([Some (6 / 10), Some (8 / 10)], 2)], 50)"
  by code_simp

text \<open>
  Claim C3, amended.  The score is a function of \<open>maxCount\<close>: 5 gives 100, 4 gives 75,
  3 gives 50, 2 gives 25, and 1 or less gives 0.  In every result the score is that
  function of the count of the first group (0 when there is none), and no group has a
  larger count.  When every response is discarded there is no group and the score is 0.
  When five responses all have the same key there is exactly one group, of count 5, and
  the score is 100.  In particular, when five responses have schemas with unique names
  and pairwise the same structure, there is exactly one group: its representative is
  the first response, its temperatures are the five temperatures in order, its count is
  5, and the score is 100.
\<close>

theorem robustness_score:
  "scoreOf 5 = 100 \<and> scoreOf 4 = 75 \<and> scoreOf 3 = 50 \<and> scoreOf 2 = 25
   \<and> (\<forall>n. n \<le> 1 \<longrightarrow> scoreOf n = 0)
   \<and> (groupAndScore lc pairs = Inr res \<longrightarrow>
        robustnessScore res = scoreOf (maxCountOf (robustnessComparisonGroups res)) \<and>
        (\<forall>g \<in> set (robustnessComparisonGroups res).
           count g \<le> maxCountOf (robustnessComparisonGroups res)))
   \<and> (list_all (\<lambda>p. responseKey lc (fst p) = None) pairs \<longrightarrow>
        (\<exists>r. groupAndScore lc pairs = Inr r \<and> robustnessComparisonGroups r = [] \<and>
             robustnessScore r = 0))
   \<and> (length pairs = 5 \<and> list_all (\<lambda>p. hasKey lc (fst p) \<and> keyOf lc (fst p) = k) pairs \<longrightarrow>
        (\<exists>r g. groupAndScore lc pairs = Inr r \<and> robustnessComparisonGroups r = [g] \<and>
               count g = 5 \<and> keyOf lc (representative g) = k \<and> robustnessScore r = 100))
   \<and> (consistentComparator lc \<and> length rs = 5 \<and>
       list_all (\<lambda>r. uniqueNames lc (r_schema r)) rs \<and>
       list_all (\<lambda>r. list_all (\<lambda>r'. sameStructure (r_schema r) (r_schema r')) rs) rs \<longrightarrow>
        (\<exists>r. handleRobustnessTest lc (map responseValue rs) = Inr r \<and>
             robustnessComparisonGroups r
               = [\<lparr>representative = responseValue (hd rs),
                   temperatures = map Some temperatureList, count = 5\<rparr>] \<and>
             robustnessScore r = 100))"
proof -
  have "scoreOf 5 = 100 \<and> scoreOf 4 = 75 \<and> scoreOf 3 = 50 \<and> scoreOf 2 = 25
      \<and> (\<forall>n. n \<le> 1 \<longrightarrow> scoreOf n = 0)"
    by (simp add: scoreOf_def)
  then show ?thesis
    using groupAndScore_result[of lc pairs res] groupAndScore_all_invalid[of lc pairs]
      groupAndScore_all_same[of pairs lc k] handleRobustnessTest_same_structure[of lc rs]
    by blast
qed

theorem robustness_score_witness:
  "scoreOf 5 = 100 \<and> scoreOf 4 = 75 \<and> scoreOf 3 = 50 \<and> scoreOf 2 = 25 \<and> scoreOf 1 = 0 \<and> scoreOf 0 = 0
   \<and> list_all (\<lambda>p. responseKey codeUnitCompare (fst p) = None) (withTemperatures [JNull, JUndefined, JObj [], JObj [(''schema'', JNull)], JStr ''text''])
   \<and> (\<exists>r. groupAndScore codeUnitCompare (withTemperatures [JNull, JUndefined, JObj [], JObj [(''schema'', JNull)], JStr ''text'']) = Inr r \<and>
          robustnessComparisonGroups r = [] \<and> robustnessScore r = 0 \<and>
          robustnessScore r = scoreOf (maxCountOf (robustnessComparisonGroups r)))
   \<and> length (withTemperatures [sampleResponse ''users'' ''a'', sampleResponse ''users '' ''b'',
        sampleResponse '' users'' ''c'', sampleResponse ''users'' ''d'',
        sampleResponse ''users'' ''e'']) = 5
   \<and> list_all (\<lambda>p. hasKey codeUnitCompare (fst p) \<and>
                   keyOf codeUnitCompare (fst p) = keyOf codeUnitCompare (sampleResponse ''users'' ''a''))
        (withTemperatures [sampleResponse ''users'' ''a'', sampleResponse ''users '' ''b'',
        sampleResponse '' users'' ''c'', sampleResponse ''users'' ''d'',
        sampleResponse ''users'' ''e''])
   \<and> (\<exists>r g. groupAndScore codeUnitCompare (withTemperatures [sampleResponse ''users'' ''a'', sampleResponse ''users '' ''b'',
        sampleResponse '' users'' ''c'', sampleResponse ''users'' ''d'',
        sampleResponse ''users'' ''e'']) = Inr r \<and>
          robustnessComparisonGroups r = [g] \<and> count g = 5 \<and> robustnessScore r = 100)
   \<and> consistentComparator codeUnitCompare
   \<and> list_all (\<lambda>r. uniqueNames codeUnitCompare (r_schema r))
        [responseWith [mkField ''id'' ''String'', mkField ''email'' ''String''],
         responseWith [mkField '' email'' ''String'', mkField ''id'' ''String ''],
         responseWith [mkField '' email'' ''String'', mkField ''id'' ''String ''],
         responseWith [mkField ''id'' ''String'', mkField ''email'' ''String''],
         responseWith [mkField ''email '' '' String'', mkField ''id'' ''String'']]
   \<and> list_all
        (\<lambda>r. list_all (\<lambda>r'. sameStructure (r_schema r) (r_schema r'))
           [responseWith [mkField ''id'' ''String'', mkField ''email'' ''String''],
            responseWith [mkField '' email'' ''String'', mkField ''id'' ''String ''],
            responseWith [mkField '' email'' ''String'', mkField ''id'' ''String ''],
            responseWith [mkField ''id'' ''String'', mkField ''email'' ''String''],
            responseWith [mkField ''email '' '' String'', mkField ''id'' ''String'']])
        [responseWith [mkField ''id'' ''String'', mkField ''email'' ''String''],
         responseWith [mkField '' email'' ''String'', mkField ''id'' ''String ''],
         responseWith [mkField '' email'' ''String'', mkField ''id'' ''String ''],
         responseWith [mkField ''id'' ''String'', mkField ''email'' ''String''],
         responseWith [mkField ''email '' '' String'', mkField ''id'' ''String'']]
   \<and> (\<exists>r. handleRobustnessTest codeUnitCompare
          (map responseValue
             [responseWith [mkField ''id'' ''String'', mkField ''email'' ''String''],
              responseWith [mkField '' email'' ''String'', mkField ''id'' ''String ''],
              responseWith [mkField '' email'' ''String'', mkField ''id'' ''String ''],
              responseWith [mkField ''id'' ''String'', mkField ''email'' ''String''],
              responseWith [mkField ''email '' '' String'', mkField ''id'' ''String'']]) = Inr r \<and>
          robustnessComparisonGroups r
            = [\<lparr>representative =
                  responseValue (responseWith [mkField ''id'' ''String'', mkField ''email'' ''String'']),
                temperatures = [Some (5 / 10), Some (6 / 10), Some (7 / 10), Some (8 / 10), Some (9 / 10)],
                count = 5\<rparr>] \<and>
          robustnessScore r = 100)"
proof -
  let ?I = "withTemperatures [JNull, JUndefined, JObj [], JObj [(''schema'', JNull)], JStr ''text'']"
  let ?S = "withTemperatures [sampleResponse ''users'' ''a'', sampleResponse ''users '' ''b'',
        sampleResponse '' users'' ''c'', sampleResponse ''users'' ''d'',
        sampleResponse ''users'' ''e'']"
  let ?k = "keyOf codeUnitCompare (sampleResponse ''users'' ''a'')"
  let ?rs = "[responseWith [mkField ''id'' ''String'', mkField ''email'' ''String''],
         responseWith [mkField '' email'' ''String'', mkField ''id'' ''String ''],
         responseWith [mkField '' email'' ''String'', mkField ''id'' ''String ''],
         responseWith [mkField ''id'' ''String'', mkField ''email'' ''String''],
         responseWith [mkField ''email '' '' String'', mkField ''id'' ''String'']]"
  have hi: "list_all (\<lambda>p. responseKey codeUnitCompare (fst p) = None) ?I" by code_simp
  have hl: "length ?S = 5" by code_simp
  have hs: "list_all (\<lambda>p. hasKey codeUnitCompare (fst p) \<and> keyOf codeUnitCompare (fst p) = ?k) ?S"
    by code_simp
  have hc: "consistentComparator codeUnitCompare" by (rule codeUnitCompare_consistent)
  have hn: "length ?rs = 5" by simp
  have hu: "list_all (\<lambda>r. uniqueNames codeUnitCompare (r_schema r)) ?rs" by code_simp
  have hp: "list_all (\<lambda>r. list_all (\<lambda>r'. sameStructure (r_schema r) (r_schema r')) ?rs) ?rs"
    by code_simp
  have ht: "map Some temperatureList
          = [Some (5 / 10), Some (6 / 10), Some (7 / 10), Some (8 / 10), Some (9 / 10 :: rat)]"
    by (simp add: temperatureList_def)
  note t = robustness_score[where lc = codeUnitCompare and k = ?k and rs = ?rs]
  have v: "scoreOf 5 = 100 \<and> scoreOf 4 = 75 \<and> scoreOf 3 = 50 \<and> scoreOf 2 = 25 \<and> scoreOf 1 = 0 \<and> scoreOf 0 = 0"
    using t[where pairs = ?I and res = undefined] by simp
  from t[where pairs = ?I and res = undefined] hi
  obtain r where r: "groupAndScore codeUnitCompare ?I = Inr r" "robustnessComparisonGroups r = []"
    "robustnessScore r = 0" by blast
  from t[where pairs = ?I and res = r] r(1)
  have r4: "robustnessScore r = scoreOf (maxCountOf (robustnessComparisonGroups r))" by blast
  from t[where pairs = ?S and res = undefined] hl hs
  have s: "\<exists>r g. groupAndScore codeUnitCompare ?S = Inr r \<and>
          robustnessComparisonGroups r = [g] \<and> count g = 5 \<and> robustnessScore r = 100"
    by blast
  from t[where pairs = ?S and res = undefined] hc hn hu hp
  have "\<exists>r. handleRobustnessTest codeUnitCompare (map responseValue ?rs) = Inr r \<and>
          robustnessComparisonGroups r
            = [\<lparr>representative = responseValue (hd ?rs),
                temperatures = map Some temperatureList, count = 5\<rparr>] \<and>
          robustnessScore r = 100"
    by blast
  then have x: "\<exists>r. handleRobustnessTest codeUnitCompare (map responseValue ?rs) = Inr r \<and>
          robustnessComparisonGroups r
            = [\<lparr>representative =
                  responseValue (responseWith [mkField ''id'' ''String'', mkField ''email'' ''String'']),
                temperatures = [Some (5 / 10), Some (6 / 10), Some (7 / 10), Some (8 / 10), Some (9 / 10)],
                count = 5\<rparr>] \<and>
          robustnessScore r = 100"
    unfolding ht by (simp only: list.sel)
  show ?thesis using v hi hl hs r r4 s hc hu hp x by blast
qed

text \<open>
  Claim C6.  A response that is absent or \<^verbatim>\<open>null\<close>, or whose schema is, has no key; a
  pair without a key leaves the map as it is and writes one console line that names its
  temperature; the groups and the score of a run (or its exception) are those of the run
  on the pairs that have a key alone; and the console lines about discarded pairs name
  the temperatures of exactly the discarded pairs, in order.
\<close>

theorem invalid_pairs_discarded:
  "(missingOrNull r \<or> (getProp r ''schema'' = Inr sv \<and> missingOrNull sv)
      \<longrightarrow> responseKey lc r = None)
   \<and> (responseKey lc r = None
      \<longrightarrow> groupResponse lc (r, t) (m, out) = Inr (m, out @ [InvalidOrEmpty t]))
   \<and> map_sum id groupsAndScoreOf (groupAndScore lc pairs)
     = map_sum id groupsAndScoreOf
         (groupAndScore lc (filter (\<lambda>p. responseKey lc (fst p) \<noteq> None) pairs))
   \<and> (groupAndScore lc pairs = Inr res
      \<longrightarrow> filter isInvalidEntry (console res)
          = map (\<lambda>p. InvalidOrEmpty (snd p)) (filter (\<lambda>p. responseKey lc (fst p) = None) pairs))"
  using responseKey_absent[of r sv lc] groupAndScore_skip_invalid[of lc pairs]
    groupAndScore_console[of lc pairs res]
  by (simp add: groupResponse_by_key)

theorem invalid_pairs_discarded_witness:
  "responseKey codeUnitCompare JNull = None
   \<and> groupResponse codeUnitCompare (JNull, Some (7 / 10 :: rat)) ([], [DebugHeader])
       = Inr ([], [DebugHeader, InvalidOrEmpty (Some (7 / 10 :: rat))])
   \<and> map_sum id groupsAndScoreOf (groupAndScore codeUnitCompare (withTemperatures [sampleResponse ''users'' ''a'', sampleResponse ''posts'' ''b'', JNull,
        sampleResponse ''posts '' ''d'', sampleResponse ''users '' ''e'']))
     = map_sum id groupsAndScoreOf
         (groupAndScore codeUnitCompare
            (filter (\<lambda>p. responseKey codeUnitCompare (fst p) \<noteq> None) (withTemperatures [sampleResponse ''users'' ''a'', sampleResponse ''posts'' ''b'', JNull,
        sampleResponse ''posts '' ''d'', sampleResponse ''users '' ''e''])))
   \<and> (\<exists>res. groupAndScore codeUnitCompare (withTemperatures [sampleResponse ''users'' ''a'', sampleResponse ''posts'' ''b'', JNull,
        sampleResponse ''posts '' ''d'', sampleResponse ''users '' ''e'']) = Inr res \<and>
          filter isInvalidEntry (console res) = [InvalidOrEmpty (Some (7 / 10 :: rat))])
   \<and> map_sum id (\<lambda>res. (map (\<lambda>g. (temperatures g, count g)) (robustnessComparisonGroups res),
                         robustnessScore res))
        (handleRobustnessTest codeUnitCompare [sampleResponse ''users'' ''a'', sampleResponse ''posts'' ''b'', JNull,
        sampleResponse ''posts '' ''d'', sampleResponse ''users '' ''e''])
     = Inr ([([Some (5 / 10), Some (9 / 10)], 2), ([Some (6 / 10), Some (8 / 10)], 2)], 25)"
proof -
  let ?P = "withTemperatures [sampleResponse ''users'' ''a'', sampleResponse ''posts'' ''b'', JNull,
        sampleResponse ''posts '' ''d'', sampleResponse ''users '' ''e'']"
  have a: "missingOrNull JNull \<or> (getProp JNull ''schema'' = Inr JNull \<and> missingOrNull JNull)"
    by (simp add: missingOrNull_def)
  from invalid_pairs_discarded[of JNull JNull codeUnitCompare "Some (7 / 10 :: rat)" "[]" "[DebugHeader]" ?P undefined] a
  have k: "responseKey codeUnitCompare JNull = None"
    and g: "groupResponse codeUnitCompare (JNull, Some (7 / 10 :: rat)) ([], [DebugHeader])
       = Inr ([], [DebugHeader] @ [InvalidOrEmpty (Some (7 / 10 :: rat))])"
    and f: "map_sum id groupsAndScoreOf (groupAndScore codeUnitCompare ?P)
     = map_sum id groupsAndScoreOf
         (groupAndScore codeUnitCompare (filter (\<lambda>p. responseKey codeUnitCompare (fst p) \<noteq> None) ?P))"
    by blast+
  have inv: "map (\<lambda>p. InvalidOrEmpty (snd p)) (filter (\<lambda>p. responseKey codeUnitCompare (fst p) = None) ?P)
           = [InvalidOrEmpty (Some (7 / 10 :: rat))]"
    by code_simp
  have "\<not> isl (groupAndScore codeUnitCompare ?P)" by code_simp
  then obtain res where res: "groupAndScore codeUnitCompare ?P = Inr res"
    by (cases "groupAndScore codeUnitCompare ?P") auto
  from invalid_pairs_discarded[of JNull JNull codeUnitCompare "Some (7 / 10 :: rat)" "[]" "[DebugHeader]" ?P res] res inv
  have c: "filter isInvalidEntry (console res) = [InvalidOrEmpty (Some (7 / 10 :: rat))]" by simp
  have e: "map_sum id (\<lambda>res. (map (\<lambda>g. (temperatures g, count g)) (robustnessComparisonGroups res),
                         robustnessScore res))
        (handleRobustnessTest codeUnitCompare [sampleResponse ''users'' ''a'', sampleResponse ''posts'' ''b'', JNull,
        sampleResponse ''posts '' ''d'', sampleResponse ''users '' ''e''])
     = Inr ([([Some (5 / 10), Some (9 / 10)], 2), ([Some (6 / 10), Some (8 / 10)], 2)], 25)"
    by code_simp
  show ?thesis using k g f res c e by auto
qed

section \<open>Properties of the highlighter\<close>

subsection \<open>The two case foldings agree\<close>












subsection \<open>The pattern\<close>

lemma syntax_facts:
  "isSyntaxCharacter (CHR '')'')" "isSyntaxCharacter (CHR ''|'')" "isSyntaxCharacter backslash"
  by (simp_all add: isSyntaxCharacter_def)

lemma parse_plain:
  "\<not> isSyntaxCharacter c \<Longrightarrow> parseAlternatives (c # rest) cur = parseAlternatives rest (cur @ [c])"
  using syntax_facts by auto

lemma parse_escape:
  "isSyntaxCharacter c \<Longrightarrow>
   parseAlternatives (backslash # c # rest) cur = parseAlternatives rest (cur @ [c])"
  by (simp add: backslash_def)

lemma parse_escaped:
  "parseAlternatives (escapeRegExp h @ rest) cur = parseAlternatives rest (cur @ h)"
proof (induction h arbitrary: cur)
  case Nil
  then show ?case by (simp add: escapeRegExp_def)
next
  case (Cons c h)
  have e: "escapeRegExp (c # h) = (if isSyntaxCharacter c then [backslash, c] else [c]) @ escapeRegExp h"
    by (simp add: escapeRegExp_def)
  show ?case
  proof (cases "isSyntaxCharacter c")
    case True
    then show ?thesis using Cons.IH[of "cur @ [c]"] parse_escape[OF True] by (simp add: e)
  next
    case False
    then show ?thesis using Cons.IH[of "cur @ [c]"] parse_plain[OF False] by (simp add: e)
  qed
qed

lemma parse_joined:
  "parseAlternatives (join ''|'' (map escapeRegExp us) @ '')'') cur
   = Some (case us of [] \<Rightarrow> [cur] | h # hs \<Rightarrow> (cur @ h) # hs)"
proof (induction us arbitrary: cur)
  case Nil
  then show ?case by simp
next
  case (Cons h hs)
  show ?case
  proof (cases hs)
    case Nil
    then show ?thesis using parse_escaped[of h "'')''" cur] by simp
  next
    case (Cons h' hs')
    have "parseAlternatives (join ''|'' (map escapeRegExp (h # hs)) @ '')'') cur
        = parseAlternatives (escapeRegExp h @ (''|'' @ join ''|'' (map escapeRegExp hs) @ '')'')) cur"
      using Cons by simp
    also have "\<dots> = parseAlternatives (''|'' @ join ''|'' (map escapeRegExp hs) @ '')'') (cur @ h)"
      by (rule parse_escaped)
    also have "\<dots> = map_option ((#) (cur @ h)) (parseAlternatives (join ''|'' (map escapeRegExp hs) @ '')'') [])"
      by simp
    also have "\<dots> = Some ((cur @ h) # hs)" using Cons.IH[of "[]"] Cons by simp
    finally show ?thesis by simp
  qed
qed

lemma compilePattern_regexSource:
  "compilePattern (regexSource us) = Some (patternAlternatives us)"
  using parse_joined[of us "[]"]
  by (simp add: compilePattern_def regexSource_def patternAlternatives_def split: list.splits)

subsection \<open>Splitting, marking and the list of phrases\<close>

lemma regexExecAt_ge: "regexExecAt alts S q = Some e \<Longrightarrow> q \<le> e"
  by (auto simp: regexExecAt_def split: option.splits)

lemma substring_pieces:
  assumes "p \<le> q" "q \<le> e" "e \<le> length S"
  shows "substring S p q @ substring S q e @ drop e S = drop p S"
proof -
  have "take (e - q) (drop q S) @ drop e S = drop q S"
  proof -
    have "drop (e - q) (drop q S) = drop e S" using assms(2) by simp
    then show ?thesis by (metis append_take_drop_id)
  qed
  moreover have "take (q - p) (drop p S) @ drop q S = drop p S"
  proof -
    have "drop (q - p) (drop p S) = drop q S" using assms(1) by simp
    then show ?thesis by (metis append_take_drop_id)
  qed
  ultimately show ?thesis by (simp add: substring_def)
qed

lemma concat_splitLoop:
  "p \<le> q \<Longrightarrow> q \<le> length S \<Longrightarrow> concat (splitLoop alts S p q) = drop p S"
proof (induction alts S p q rule: splitLoop.induct)
  case (1 alts S p q)
  show ?case
  proof (cases "q < length S")
    case False
    then have "splitLoop alts S p q = [substring S p (length S)]"
      by (subst splitLoop.simps) simp
    then show ?thesis by (simp add: substring_def)
  next
    case True
    show ?thesis
    proof (cases "regexExecAt alts S q")
      case None
      then have "splitLoop alts S p q = splitLoop alts S p (q + 1)"
        using True by (subst splitLoop.simps) simp
      then show ?thesis using "1.IH"(1)[OF True None] "1.prems" True by simp
    next
      case (Some lastIndex)
      let ?e = "min lastIndex (length S)"
      have qe: "q \<le> ?e" using regexExecAt_ge[OF Some] True by simp
      show ?thesis
      proof (cases "?e = p")
        case eq: True
        then have "splitLoop alts S p q = splitLoop alts S p (q + 1)"
          using True Some by (subst splitLoop.simps) (simp add: Let_def)
        then show ?thesis using "1.IH"(2)[OF True Some refl eq] "1.prems" True by simp
      next
        case ne: False
        then have "splitLoop alts S p q
                 = substring S p q # substring S q ?e # splitLoop alts S ?e ?e"
          using True Some by (subst splitLoop.simps) (simp add: Let_def)
        moreover have "concat (splitLoop alts S ?e ?e) = drop ?e S"
          using "1.IH"(3)[OF True Some refl ne] by simp
        ultimately show ?thesis using substring_pieces[OF "1.prems"(1) qe] by simp
      qed
    qed
  qed
qed

lemma concat_split: "concat (split alts S) = S"
proof (cases "S = []")
  case True
  then show ?thesis by (simp add: split_def)
next
  case False
  then show ?thesis using concat_splitLoop[of 0 0 S alts] by (simp add: split_def)
qed

lemma concat_filter_nonempty: "concat (filter (\<lambda>part. part \<noteq> []) parts) = concat parts"
  by (induction parts) auto

lemma segmentText_mark:
  "map (segmentText \<circ> (\<lambda>part. if P part then Marked part else Plain part)) parts = parts"
  by (induction parts) auto

lemma highlighter_concat:
  "concat (map segmentText (highlighted text highlights)) = text"
proof (cases highlights)
  case None
  then show ?thesis by (simp add: highlighted_def)
next
  case (Some hs)
  show ?thesis
  proof (cases "length hs = 0")
    case True
    then show ?thesis using Some by (simp add: highlighted_def)
  next
    case False
    then show ?thesis using Some
      by (simp add: highlighted_def Let_def segmentText_mark concat_filter_nonempty
          concat_split del: length_0_conv)
  qed
qed
























lemma RequirementHighlighter_highlighted:
  "RequirementHighlighter text highlights = Some (highlighted text highlights)"
  by (simp add: RequirementHighlighter_def highlighted_def compilePattern_regexSource Let_def
      split: option.splits)

subsection \<open>The claims on the highlighter\<close>

text \<open>
  Claim C10.  For every text and every list of highlights (absent, empty, or holding
  anything), the component renders, and the segments rendered, marked and plain
  together, concatenate to the text: splitting by the pattern and rendering the parts
  loses, repeats and reorders nothing.
\<close>

theorem highlighter_preserves_text:
  "\<exists>segs. RequirementHighlighter inp highlights = Some segs
          \<and> concat (map segmentText segs) = inp"
  by (simp add: RequirementHighlighter_highlighted highlighter_concat)

theorem highlighter_preserves_text_witness:
  "\<exists>segs. RequirementHighlighter ''Users (can) create posts.''
             (Some [JStr ''posts'', JStr ''Users'', JStr ''(can) create p'', JStr [], JNull])
           = Some segs
          \<and> concat (map segmentText segs) = ''Users (can) create posts.''"
  by (rule highlighter_preserves_text)



section \<open>Properties of the run of the five calls\<close>

lemma fulfilled_not_pending: "list_all isFulfilled cs \<Longrightarrow> i < length cs \<Longrightarrow> cs ! i \<noteq> Pending"
  by (metis isFulfilled.simps(2) list_all_length)

lemma not_all_fulfilled:
  assumes "\<not> list_all isFulfilled cs" "\<not> list_ex isRejected cs"
  shows "list_ex (\<lambda>c. c = Pending) cs"
proof -
  from assms(1) obtain c where c: "c \<in> set cs" "\<not> isFulfilled c" by (auto simp: list_all_iff)
  then have "\<not> isRejected c" using assms(2) by (auto simp: list_ex_iff)
  then have "c = Pending" using c(2) by (cases c rule: isFulfilled.cases) auto
  then show ?thesis using c(1) by (auto simp: list_ex_iff)
qed

lemma no_rejected_update:
  assumes "\<not> list_ex isRejected cs"
  shows "\<not> list_ex isRejected (cs[i := Settled (Fulfil t)])"
proof
  assume "list_ex isRejected (cs[i := Settled (Fulfil t)])"
  then obtain c where c: "c \<in> set (cs[i := Settled (Fulfil t)])" "isRejected c"
    by (auto simp: list_ex_iff)
  then have "c \<in> insert (Settled (Fulfil t)) (set cs)" using set_update_subset_insert by fastforce
  then show False using c(2) assms by (auto simp: list_ex_iff)
qed

lemma testInvariant_start: "testInvariant lc jsonParse startTest"
  by (simp add: testInvariant_def startTest_def temperatureList_def)

lemma pending_not_fulfilled: "i < length cs \<Longrightarrow> cs ! i = Pending \<Longrightarrow> \<not> list_all isFulfilled cs"
  using fulfilled_not_pending by blast

lemma rejected_update_fulfil:
  assumes "i < length cs" "cs ! i = Pending"
  shows "list_ex isRejected (cs[i := Settled (Fulfil t)]) = list_ex isRejected cs"
proof
  assume "list_ex isRejected (cs[i := Settled (Fulfil t)])"
  then show "list_ex isRejected cs" using no_rejected_update by blast
next
  assume "list_ex isRejected cs"
  then obtain j where j: "j < length cs" "isRejected (cs ! j)"
    by (auto simp: list_ex_iff in_set_conv_nth)
  then have "j \<noteq> i" using assms(2) by auto
  then have "(cs[i := Settled (Fulfil t)]) ! j = cs ! j" by simp
  then show "list_ex isRejected (cs[i := Settled (Fulfil t)])"
    using j by (metis length_list_update list_ex_length)
qed

lemma settled_kept:
  assumes "c \<in> set cs" "c \<noteq> Pending" "cs ! i = Pending"
  shows "c \<in> set (cs[i := x])"
proof -
  from assms(1) obtain j where j: "j < length cs" "cs ! j = c" by (auto simp: in_set_conv_nth)
  then have "j \<noteq> i" using assms(2,3) by auto
  then have "(cs[i := x]) ! j = c" using j by simp
  then show ?thesis using j(1) by (metis length_list_update nth_mem)
qed

lemma testInvariant_onSettle:
  assumes "testInvariant lc jsonParse st"
  shows "testInvariant lc jsonParse (onSettle lc jsonParse ev st)"
proof (cases "fst ev < length (calls st) \<and> calls st ! fst ev = Pending")
  case False
  then show ?thesis using assms by (auto simp: onSettle_def Let_def)
next
  case True
  let ?cs = "(calls st)[fst ev := Settled (snd ev)]"
  have len: "length ?cs = 5" using assms by (simp add: testInvariant_def)
  have c: "calls (onSettle lc jsonParse ev st) = ?cs"
    using True by (simp add: onSettle_def Let_def)
  have nf: "\<not> list_all isFulfilled (calls st)" using True pending_not_fulfilled by blast
  show ?thesis
  proof (cases "list_ex isRejected (calls st)")
    case rej: True
    then obtain e where e: "Settled (Reject e) \<in> set (calls st)"
      "outcome st = Some (Failed (rethrown e))"
      using assms by (auto simp: testInvariant_def)
    have o: "outcome (onSettle lc jsonParse ev st) = Some (Failed (rethrown e))"
      using True e(2) by (simp add: onSettle_def Let_def)
    have m: "Settled (Reject e) \<in> set ?cs" using settled_kept[OF e(1)] True by simp
    then have "list_ex isRejected ?cs" by (auto simp: list_ex_iff intro: bexI[of _ "Settled (Reject e)"])
    then show ?thesis unfolding testInvariant_def c o using len m by auto
  next
    case norej: False
    then have none: "outcome st = None" using assms nf by (simp add: testInvariant_def)
    show ?thesis
    proof (cases "snd ev")
      case (Reject e)
      have o: "outcome (onSettle lc jsonParse ev st) = Some (Failed (rethrown e))"
        using True none Reject by (simp add: onSettle_def Let_def)
      have m: "Settled (Reject e) \<in> set ?cs"
        using True Reject by (metis set_update_memI)
      then have "list_ex isRejected ?cs" by (auto simp: list_ex_iff intro: bexI[of _ "Settled (Reject e)"])
      then show ?thesis unfolding testInvariant_def c o using len m by auto
    next
      case (Fulfil t)
      have nr: "\<not> list_ex isRejected ?cs"
        using rejected_update_fulfil[of "fst ev" "calls st" t] True norej Fulfil by simp
      have o: "outcome (onSettle lc jsonParse ev st)
             = (if list_all isFulfilled ?cs
                then Some (afterAllFulfilled lc jsonParse (map textOf ?cs)) else None)"
        using True none Fulfil by (simp add: onSettle_def Let_def)
      show ?thesis unfolding testInvariant_def c o using len nr by simp
    qed
  qed
qed

lemma testInvariant_runEvents: "testInvariant lc jsonParse (runEvents lc jsonParse evs)"
proof (induction evs rule: rev_induct)
  case Nil
  then show ?case by (simp add: runEvents_def testInvariant_start)
next
  case (snoc ev evs)
  then show ?case using testInvariant_onSettle by (simp add: runEvents_def)
qed

lemma rejected_not_fulfilled: "list_ex isRejected cs \<Longrightarrow> \<not> list_all isFulfilled cs"
  by (metis isFulfilled.simps(3) isRejected.elims(2) list_all_iff list_ex_iff)

lemma settled_cases:
  assumes "list_all (\<lambda>c. c \<noteq> Pending) cs" "\<not> list_ex isRejected cs"
  shows "list_all isFulfilled cs"
  using assms not_all_fulfilled by (fastforce simp: list_all_iff list_ex_iff)

lemma invariant_facts:
  assumes "testInvariant lc jsonParse st"
  shows "outcome st = Some (Succeeded g s) \<Longrightarrow> list_all isFulfilled (calls st)"
    and "list_ex isRejected (calls st) \<Longrightarrow> \<exists>m. outcome st = Some (Failed m)"
    and "list_all (\<lambda>c. c \<noteq> Pending) (calls st) \<Longrightarrow> outcome st \<noteq> None"
    and "list_ex isRejected (calls st) \<Longrightarrow>
           \<exists>e. Settled (Reject e) \<in> set (calls st) \<and> outcome st = Some (Failed (rethrown e))"
    and "\<not> list_ex isRejected (calls st) \<Longrightarrow> \<not> list_all isFulfilled (calls st) \<Longrightarrow> outcome st = None"
    and "list_all isFulfilled (calls st) \<Longrightarrow>
           outcome st = Some (afterAllFulfilled lc jsonParse (map textOf (calls st)))"
proof -
  show "outcome st = Some (Succeeded g s) \<Longrightarrow> list_all isFulfilled (calls st)"
    using assms by (auto simp: testInvariant_def split: if_splits)
  show "list_ex isRejected (calls st) \<Longrightarrow> \<exists>m. outcome st = Some (Failed m)"
    using assms by (auto simp: testInvariant_def)
  show "list_all (\<lambda>c. c \<noteq> Pending) (calls st) \<Longrightarrow> outcome st \<noteq> None"
    using assms settled_cases[of "calls st"] by (auto simp: testInvariant_def split: if_splits)
  show "list_ex isRejected (calls st) \<Longrightarrow>
           \<exists>e. Settled (Reject e) \<in> set (calls st) \<and> outcome st = Some (Failed (rethrown e))"
    using assms by (auto simp: testInvariant_def)
  show "\<not> list_ex isRejected (calls st) \<Longrightarrow> \<not> list_all isFulfilled (calls st) \<Longrightarrow> outcome st = None"
    using assms by (auto simp: testInvariant_def)
  show "list_all isFulfilled (calls st) \<Longrightarrow>
           outcome st = Some (afterAllFulfilled lc jsonParse (map textOf (calls st)))"
  proof -
    assume a: "list_all isFulfilled (calls st)"
    then have "\<not> list_ex isRejected (calls st)" using rejected_not_fulfilled by blast
    then show ?thesis using assms a by (simp add: testInvariant_def)
  qed
qed

lemma parseAll_first_failure:
  assumes "i < length texts"
    and "\<forall>j < i. \<exists>v. parseResponse jsonParse (texts ! j) = Inr v"
    and "parseResponse jsonParse (texts ! i) = Inl m"
  shows "parseAll jsonParse texts = Inl m"
  using assms
proof (induction texts arbitrary: i)
  case Nil
  then show ?case by simp
next
  case (Cons t ts)
  show ?case
  proof (cases i)
    case 0
    then show ?thesis using Cons.prems(3) by simp
  next
    case (Suc k)
    then obtain v where v: "parseResponse jsonParse t = Inr v" using Cons.prems(2) by fastforce
    have "parseAll jsonParse ts = Inl m"
    proof (rule Cons.IH[of k])
      show "k < length ts" using Cons.prems(1) Suc by simp
      show "\<forall>j < k. \<exists>v. parseResponse jsonParse (ts ! j) = Inr v"
        using Cons.prems(2) Suc by fastforce
      show "parseResponse jsonParse (ts ! k) = Inl m" using Cons.prems(3) Suc by simp
    qed
    then show ?thesis using v by simp
  qed
qed

lemma parseAll_all:
  "list_all2 (\<lambda>t v. parseResponse jsonParse t = Inr v) texts vs \<Longrightarrow> parseAll jsonParse texts = Inr vs"
  by (induction texts vs rule: list_all2_induct) simp_all

lemma afterAllFulfilled_cases:
  shows "i < length texts \<Longrightarrow> \<forall>j < i. \<exists>v. parseResponse jsonParse (texts ! j) = Inr v \<Longrightarrow>
         parseResponse jsonParse (texts ! i) = Inl m \<Longrightarrow>
         afterAllFulfilled lc jsonParse texts = Failed (''Failed to run robustness test: '' @ m)"
    and "list_all2 (\<lambda>t v. parseResponse jsonParse t = Inr v) texts vs \<Longrightarrow>
         handleRobustnessTest lc vs = Inl e \<Longrightarrow>
         afterAllFulfilled lc jsonParse texts = FailedTypeError"
    and "list_all2 (\<lambda>t v. parseResponse jsonParse t = Inr v) texts vs \<Longrightarrow>
         handleRobustnessTest lc vs = Inr r \<Longrightarrow>
         afterAllFulfilled lc jsonParse texts
           = Succeeded (robustnessComparisonGroups r) (robustnessScore r)"
proof -
  show "i < length texts \<Longrightarrow> \<forall>j < i. \<exists>v. parseResponse jsonParse (texts ! j) = Inr v \<Longrightarrow>
         parseResponse jsonParse (texts ! i) = Inl m \<Longrightarrow>
         afterAllFulfilled lc jsonParse texts = Failed (''Failed to run robustness test: '' @ m)"
    using parseAll_first_failure[of i texts jsonParse m]
    by (simp add: afterAllFulfilled_def rethrown_def)
  show "list_all2 (\<lambda>t v. parseResponse jsonParse t = Inr v) texts vs \<Longrightarrow>
         handleRobustnessTest lc vs = Inl e \<Longrightarrow>
         afterAllFulfilled lc jsonParse texts = FailedTypeError"
    using parseAll_all[of jsonParse texts vs] by (simp add: afterAllFulfilled_def)
  show "list_all2 (\<lambda>t v. parseResponse jsonParse t = Inr v) texts vs \<Longrightarrow>
         handleRobustnessTest lc vs = Inr r \<Longrightarrow>
         afterAllFulfilled lc jsonParse texts
           = Succeeded (robustnessComparisonGroups r) (robustnessScore r)"
    using parseAll_all[of jsonParse texts vs] by (simp add: afterAllFulfilled_def)
qed

subsection \<open>The claim on the run of the five calls\<close>

text \<open>
  Claim C5, as stated: the test reaches its outcome only after every one of the five
  calls has settled.  It fails on the code: the calls are joined by \<^verbatim>\<open>Promise.all\<close>,
  which rejects with the first rejection.  When the first call fails before any other
  has settled, the test has failed while four calls are pending.  (No response is parsed
  on this run, so the parser given plays no part.)
\<close>

theorem robustness_test_outcome_before_all_settled:
  "outcome (runEvents codeUnitCompare (\<lambda>s. Inr JNull) [(0, Reject (Some ''quota exceeded''))])
     = Some (Failed ''Failed to run robustness test: quota exceeded'')
   \<and> calls (runEvents codeUnitCompare (\<lambda>s. Inr JNull) [(0, Reject (Some ''quota exceeded''))])
     = [Settled (Reject (Some ''quota exceeded'')), Pending, Pending, Pending, Pending]"
  by code_simp

text \<open>
  Claim C5, amended.  All five calls are started before anything is awaited.  The test
  succeeds only after all five calls have been fulfilled.  It fails as soon as one call
  fails, whatever the state of the others: a rejection while there is no outcome yet
  gives the failure at once, and in every state with a rejected call the outcome is the
  failure of a rejected call.  While no call is rejected and one is pending there is no
  outcome.  Once all five calls are fulfilled the outcome is decided by the five texts,
  read in the order of the temperatures: the first text that is empty after trimming, or
  that \<^verbatim>\<open>JSON.parse\<close> rejects, makes the test fail with its message; if all five parse
  and the grouping throws, the test fails with the \<^verbatim>\<open>TypeError\<close>; otherwise it succeeds
  with the groups and the score of the grouping.  Once every call has settled the test
  has an outcome.
\<close>

theorem robustness_test_fails_fast:
  "calls startTest = [Pending, Pending, Pending, Pending, Pending] \<and> outcome startTest = None
   \<and> (outcome (runEvents lc jsonParse evs) = Some (Succeeded g s)
        \<longrightarrow> list_all isFulfilled (calls (runEvents lc jsonParse evs)))
   \<and> (list_ex isRejected (calls (runEvents lc jsonParse evs))
        \<longrightarrow> (\<exists>e. Settled (Reject e) \<in> set (calls (runEvents lc jsonParse evs)) \<and>
                 outcome (runEvents lc jsonParse evs) = Some (Failed (rethrown e))))
   \<and> (outcome (runEvents lc jsonParse evs) = None \<and> i < 5 \<and> calls (runEvents lc jsonParse evs) ! i = Pending
        \<longrightarrow> outcome (onSettle lc jsonParse (i, Reject err) (runEvents lc jsonParse evs))
            = Some (Failed (rethrown err)))
   \<and> (\<not> list_ex isRejected (calls (runEvents lc jsonParse evs)) \<and>
       \<not> list_all isFulfilled (calls (runEvents lc jsonParse evs))
        \<longrightarrow> outcome (runEvents lc jsonParse evs) = None)
   \<and> (trim t = [] \<longrightarrow> parseResponse jsonParse t = Inl ''Received an empty response from the API.'')
   \<and> (trim t \<noteq> [] \<longrightarrow> parseResponse jsonParse t = jsonParse (trim t))
   \<and> (list_all isFulfilled (calls (runEvents lc jsonParse evs)) \<and> k < 5 \<and>
       (\<forall>j < k. \<exists>v. parseResponse jsonParse (textOf (calls (runEvents lc jsonParse evs) ! j)) = Inr v) \<and>
       parseResponse jsonParse (textOf (calls (runEvents lc jsonParse evs) ! k)) = Inl m
        \<longrightarrow> outcome (runEvents lc jsonParse evs)
            = Some (Failed (''Failed to run robustness test: '' @ m)))
   \<and> (list_all isFulfilled (calls (runEvents lc jsonParse evs)) \<and>
       list_all2 (\<lambda>c v. parseResponse jsonParse (textOf c) = Inr v)
         (calls (runEvents lc jsonParse evs)) vs \<and>
       handleRobustnessTest lc vs = Inl x
        \<longrightarrow> outcome (runEvents lc jsonParse evs) = Some FailedTypeError)
   \<and> (list_all isFulfilled (calls (runEvents lc jsonParse evs)) \<and>
       list_all2 (\<lambda>c v. parseResponse jsonParse (textOf c) = Inr v)
         (calls (runEvents lc jsonParse evs)) vs \<and>
       handleRobustnessTest lc vs = Inr r
        \<longrightarrow> outcome (runEvents lc jsonParse evs)
            = Some (Succeeded (robustnessComparisonGroups r) (robustnessScore r)))
   \<and> (list_all (\<lambda>c. c \<noteq> Pending) (calls (runEvents lc jsonParse evs))
        \<longrightarrow> outcome (runEvents lc jsonParse evs) \<noteq> None)"
proof -
  let ?st = "runEvents lc jsonParse evs"
  have inv: "testInvariant lc jsonParse ?st" by (rule testInvariant_runEvents)
  have len: "length (calls ?st) = 5" using inv by (simp add: testInvariant_def)
  note f = invariant_facts[OF inv]
  have c0: "calls startTest = [Pending, Pending, Pending, Pending, Pending] \<and> outcome startTest = None"
    by (simp add: startTest_def temperatureList_def)
  have c3: "outcome ?st = None \<and> i < 5 \<and> calls ?st ! i = Pending
        \<longrightarrow> outcome (onSettle lc jsonParse (i, Reject err) ?st) = Some (Failed (rethrown err))"
    using len by (simp add: onSettle_def Let_def)
  have c5: "trim t = [] \<longrightarrow> parseResponse jsonParse t = Inl ''Received an empty response from the API.''"
    by (simp add: parseResponse_def)
  have c6: "trim t \<noteq> [] \<longrightarrow> parseResponse jsonParse t = jsonParse (trim t)"
    by (simp add: parseResponse_def)
  have c7: "list_all isFulfilled (calls ?st) \<and> k < 5 \<and>
       (\<forall>j < k. \<exists>v. parseResponse jsonParse (textOf (calls ?st ! j)) = Inr v) \<and>
       parseResponse jsonParse (textOf (calls ?st ! k)) = Inl m
        \<longrightarrow> outcome ?st = Some (Failed (''Failed to run robustness test: '' @ m))"
  proof (intro impI, elim conjE)
    assume a: "list_all isFulfilled (calls ?st)" and k: "k < 5"
      and b: "\<forall>j < k. \<exists>v. parseResponse jsonParse (textOf (calls ?st ! j)) = Inr v"
      and p: "parseResponse jsonParse (textOf (calls ?st ! k)) = Inl m"
    have "afterAllFulfilled lc jsonParse (map textOf (calls ?st))
        = Failed (''Failed to run robustness test: '' @ m)"
    proof (rule afterAllFulfilled_cases(1)[of k])
      show "k < length (map textOf (calls ?st))" using k len by simp
      show "\<forall>j < k. \<exists>v. parseResponse jsonParse (map textOf (calls ?st) ! j) = Inr v"
        using b k len by simp
      show "parseResponse jsonParse (map textOf (calls ?st) ! k) = Inl m" using p k len by simp
    qed
    then show "outcome ?st = Some (Failed (''Failed to run robustness test: '' @ m))"
      using f(6)[OF a] by simp
  qed
  have l2: "list_all2 (\<lambda>t v. parseResponse jsonParse t = Inr v) (map textOf (calls ?st)) vs"
    if "list_all2 (\<lambda>c v. parseResponse jsonParse (textOf c) = Inr v) (calls ?st) vs"
    using that by (simp add: list_all2_map1)
  have c8: "list_all isFulfilled (calls ?st) \<and>
       list_all2 (\<lambda>c v. parseResponse jsonParse (textOf c) = Inr v) (calls ?st) vs \<and>
       handleRobustnessTest lc vs = Inl x
        \<longrightarrow> outcome ?st = Some FailedTypeError"
    using f(6) afterAllFulfilled_cases(2)[of jsonParse "map textOf (calls ?st)" vs lc x] l2 by simp
  have c9: "list_all isFulfilled (calls ?st) \<and>
       list_all2 (\<lambda>c v. parseResponse jsonParse (textOf c) = Inr v) (calls ?st) vs \<and>
       handleRobustnessTest lc vs = Inr r
        \<longrightarrow> outcome ?st = Some (Succeeded (robustnessComparisonGroups r) (robustnessScore r))"
    using f(6) afterAllFulfilled_cases(3)[of jsonParse "map textOf (calls ?st)" vs lc r] l2 by simp
  show ?thesis using c0 f(1)[of g s] f(4) c3 f(5) c5 c6 c7 c8 c9 f(3) by blast
qed

theorem robustness_test_fails_fast_witness:
  "(case outcome (runEvents codeUnitCompare sampleParse [(2, Fulfil ''users''), (0, Fulfil '' users''), (4, Fulfil ''users ''), (1, Fulfil ''users''), (3, Fulfil ''users'')]) of
      Some (Succeeded g s) \<Rightarrow> s = 100 \<and> length g = 1
    | _ \<Rightarrow> False)
   \<and> list_all isFulfilled (calls (runEvents codeUnitCompare sampleParse [(2, Fulfil ''users''), (0, Fulfil '' users''), (4, Fulfil ''users ''), (1, Fulfil ''users''), (3, Fulfil ''users'')]))
   \<and> list_ex isRejected (calls (runEvents codeUnitCompare sampleParse [(2, Fulfil ''users''), (1, Reject None), (0, Reject (Some ''late''))]))
   \<and> outcome (runEvents codeUnitCompare sampleParse [(2, Fulfil ''users''), (1, Reject None), (0, Reject (Some ''late''))])
     = Some (Failed ''An unknown error occurred while running the robustness test.'')
   \<and> (\<exists>e. Settled (Reject e) \<in> set (calls (runEvents codeUnitCompare sampleParse [(2, Fulfil ''users''), (1, Reject None), (0, Reject (Some ''late''))])) \<and>
          outcome (runEvents codeUnitCompare sampleParse [(2, Fulfil ''users''), (1, Reject None), (0, Reject (Some ''late''))])
          = Some (Failed (rethrown e)))
   \<and> outcome (runEvents codeUnitCompare sampleParse [(2, Fulfil ''users''), (0, Fulfil ''posts'')]) = None
   \<and> calls (runEvents codeUnitCompare sampleParse [(2, Fulfil ''users''), (0, Fulfil ''posts'')]) ! 4 = Pending
   \<and> outcome (onSettle codeUnitCompare sampleParse (4, Reject (Some ''timeout''))
        (runEvents codeUnitCompare sampleParse [(2, Fulfil ''users''), (0, Fulfil ''posts'')]))
     = Some (Failed (rethrown (Some ''timeout'')))
   \<and> \<not> list_ex isRejected (calls (runEvents codeUnitCompare sampleParse [(2, Fulfil ''users''), (0, Fulfil ''posts'')]))
   \<and> \<not> list_all isFulfilled (calls (runEvents codeUnitCompare sampleParse [(2, Fulfil ''users''), (0, Fulfil ''posts'')]))
   \<and> trim ''  '' = []
   \<and> parseResponse sampleParse ''  '' = Inl ''Received an empty response from the API.''
   \<and> trim '' users'' \<noteq> []
   \<and> parseResponse sampleParse '' users'' = sampleParse (trim '' users'')
   \<and> list_all isFulfilled (calls (runEvents codeUnitCompare sampleParse [(0, Fulfil ''users''), (1, Fulfil ''  ''), (2, Fulfil ''unparsable''), (3, Fulfil ''users''), (4, Fulfil ''users'')]))
   \<and> parseResponse sampleParse (textOf (calls (runEvents codeUnitCompare sampleParse [(0, Fulfil ''users''), (1, Fulfil ''  ''), (2, Fulfil ''unparsable''), (3, Fulfil ''users''), (4, Fulfil ''users'')]) ! 0))
     = Inr (sampleResponse ''users'' [])
   \<and> parseResponse sampleParse (textOf (calls (runEvents codeUnitCompare sampleParse [(0, Fulfil ''users''), (1, Fulfil ''  ''), (2, Fulfil ''unparsable''), (3, Fulfil ''users''), (4, Fulfil ''users'')]) ! 1))
     = Inl ''Received an empty response from the API.''
   \<and> outcome (runEvents codeUnitCompare sampleParse [(0, Fulfil ''users''), (1, Fulfil ''  ''), (2, Fulfil ''unparsable''), (3, Fulfil ''users''), (4, Fulfil ''users'')])
     = Some (Failed ''Failed to run robustness test: Received an empty response from the API.'')
   \<and> list_all isFulfilled (calls (runEvents codeUnitCompare sampleParse [(4, Fulfil ''users''), (3, Fulfil ''users''), (2, Fulfil ''unparsable''), (1, Fulfil ''posts''), (0, Fulfil ''users'')]))
   \<and> parseResponse sampleParse (textOf (calls (runEvents codeUnitCompare sampleParse [(4, Fulfil ''users''), (3, Fulfil ''users''), (2, Fulfil ''unparsable''), (1, Fulfil ''posts''), (0, Fulfil ''users'')]) ! 2))
     = Inl ''Unexpected token u in JSON at position 0''
   \<and> outcome (runEvents codeUnitCompare sampleParse [(4, Fulfil ''users''), (3, Fulfil ''users''), (2, Fulfil ''unparsable''), (1, Fulfil ''posts''), (0, Fulfil ''users'')])
     = Some (Failed ''Failed to run robustness test: Unexpected token u in JSON at position 0'')
   \<and> list_all isFulfilled (calls (runEvents codeUnitCompare sampleParse [(0, Fulfil ''users''), (1, Fulfil ''users''), (2, Fulfil ''collections: 5''), (3, Fulfil ''users''), (4, Fulfil ''users'')]))
   \<and> list_all2 (\<lambda>c v. parseResponse sampleParse (textOf c) = Inr v)
        (calls (runEvents codeUnitCompare sampleParse [(0, Fulfil ''users''), (1, Fulfil ''users''), (2, Fulfil ''collections: 5''), (3, Fulfil ''users''), (4, Fulfil ''users'')]))
        [sampleResponse ''users'' [], sampleResponse ''users'' [],
         JObj [(''schema'', JObj [(''collections'', JNum 5)])],
         sampleResponse ''users'' [], sampleResponse ''users'' []]
   \<and> handleRobustnessTest codeUnitCompare
        [sampleResponse ''users'' [], sampleResponse ''users'' [],
         JObj [(''schema'', JObj [(''collections'', JNum 5)])],
         sampleResponse ''users'' [], sampleResponse ''users'' []] = Inl TypeError
   \<and> outcome (runEvents codeUnitCompare sampleParse [(0, Fulfil ''users''), (1, Fulfil ''users''), (2, Fulfil ''collections: 5''), (3, Fulfil ''users''), (4, Fulfil ''users'')])
     = Some FailedTypeError
   \<and> list_all2 (\<lambda>c v. parseResponse sampleParse (textOf c) = Inr v)
        (calls (runEvents codeUnitCompare sampleParse [(2, Fulfil ''users''), (0, Fulfil '' users''), (4, Fulfil ''users ''), (1, Fulfil ''users''), (3, Fulfil ''users'')]))
        [sampleResponse ''users'' [], sampleResponse ''users'' [], sampleResponse ''users'' [],
         sampleResponse ''users'' [], sampleResponse ''users'' []]
   \<and> (\<exists>r. handleRobustnessTest codeUnitCompare
          [sampleResponse ''users'' [], sampleResponse ''users'' [], sampleResponse ''users'' [],
           sampleResponse ''users'' [], sampleResponse ''users'' []] = Inr r \<and>
          outcome (runEvents codeUnitCompare sampleParse [(2, Fulfil ''users''), (0, Fulfil '' users''), (4, Fulfil ''users ''), (1, Fulfil ''users''), (3, Fulfil ''users'')])
          = Some (Succeeded (robustnessComparisonGroups r) (robustnessScore r)))
   \<and> list_all (\<lambda>c. c \<noteq> Pending) (calls (runEvents codeUnitCompare sampleParse [(2, Fulfil ''users''), (0, Fulfil '' users''), (4, Fulfil ''users ''), (1, Fulfil ''users''), (3, Fulfil ''users'')]))
   \<and> outcome (runEvents codeUnitCompare sampleParse [(2, Fulfil ''users''), (0, Fulfil '' users''), (4, Fulfil ''users ''), (1, Fulfil ''users''), (3, Fulfil ''users'')]) \<noteq> None"
proof -
  let ?A = "runEvents codeUnitCompare sampleParse [(2, Fulfil ''users''), (0, Fulfil '' users''), (4, Fulfil ''users ''), (1, Fulfil ''users''), (3, Fulfil ''users'')]"
  let ?R = "runEvents codeUnitCompare sampleParse [(2, Fulfil ''users''), (1, Reject None), (0, Reject (Some ''late''))]"
  let ?P = "runEvents codeUnitCompare sampleParse [(2, Fulfil ''users''), (0, Fulfil ''posts'')]"
  let ?E = "runEvents codeUnitCompare sampleParse [(0, Fulfil ''users''), (1, Fulfil ''  ''), (2, Fulfil ''unparsable''), (3, Fulfil ''users''), (4, Fulfil ''users'')]"
  let ?U = "runEvents codeUnitCompare sampleParse [(4, Fulfil ''users''), (3, Fulfil ''users''), (2, Fulfil ''unparsable''), (1, Fulfil ''posts''), (0, Fulfil ''users'')]"
  let ?T = "runEvents codeUnitCompare sampleParse [(0, Fulfil ''users''), (1, Fulfil ''users''), (2, Fulfil ''collections: 5''), (3, Fulfil ''users''), (4, Fulfil ''users'')]"
  let ?vT = "[sampleResponse ''users'' [], sampleResponse ''users'' [],
         JObj [(''schema'', JObj [(''collections'', JNum 5)])],
         sampleResponse ''users'' [], sampleResponse ''users'' []]"
  let ?vA = "[sampleResponse ''users'' [], sampleResponse ''users'' [], sampleResponse ''users'' [],
         sampleResponse ''users'' [], sampleResponse ''users'' []]"
  let ?empty = "''Received an empty response from the API.''"
  let ?rejected = "''Unexpected token u in JSON at position 0''"
  have a: "case outcome ?A of Some (Succeeded g s) \<Rightarrow> s = 100 \<and> length g = 1 | _ \<Rightarrow> False"
    by code_simp
  then obtain g s where gs: "outcome ?A = Some (Succeeded g s)"
    by (auto split: option.splits testOutcome.splits)
  have r: "list_ex isRejected (calls ?R)" by code_simp
  have rm: "outcome ?R = Some (Failed ''An unknown error occurred while running the robustness test.'')"
    by code_simp
  have p: "outcome ?P = None \<and> (4 :: nat) < 5 \<and> calls ?P ! 4 = Pending" by code_simp
  have pn: "\<not> list_ex isRejected (calls ?P) \<and> \<not> list_all isFulfilled (calls ?P)" by code_simp
  have n: "list_all (\<lambda>c. c \<noteq> Pending) (calls ?A)" by code_simp
  have t1: "trim ''  '' = []" by code_simp
  have t2: "trim '' users'' \<noteq> []" by code_simp
  have fE: "list_all isFulfilled (calls ?E)" by code_simp
  have e0: "parseResponse sampleParse (textOf (calls ?E ! 0)) = Inr (sampleResponse ''users'' [])"
    by code_simp
  have e1: "parseResponse sampleParse (textOf (calls ?E ! 1)) = Inl ?empty" by code_simp
  have eb: "\<forall>j < (1 :: nat). \<exists>v. parseResponse sampleParse (textOf (calls ?E ! j)) = Inr v"
    using e0 by simp
  have fU: "list_all isFulfilled (calls ?U)" by code_simp
  have u0: "parseResponse sampleParse (textOf (calls ?U ! 0)) = Inr (sampleResponse ''users'' [])"
    by code_simp
  have u1: "parseResponse sampleParse (textOf (calls ?U ! 1)) = Inr (sampleResponse ''posts'' [])"
    by code_simp
  have u2: "parseResponse sampleParse (textOf (calls ?U ! 2)) = Inl ?rejected" by code_simp
  have ub: "\<forall>j < (2 :: nat). \<exists>v. parseResponse sampleParse (textOf (calls ?U ! j)) = Inr v"
    using u0 u1 by (auto simp: less_Suc_eq numeral_2_eq_2)
  have fT: "list_all isFulfilled (calls ?T)" by code_simp
  have lT: "list_all2 (\<lambda>c v. parseResponse sampleParse (textOf c) = Inr v) (calls ?T) ?vT"
    by code_simp
  have hT: "handleRobustnessTest codeUnitCompare ?vT = Inl TypeError" by code_simp
  have lA: "list_all2 (\<lambda>c v. parseResponse sampleParse (textOf c) = Inr v) (calls ?A) ?vA"
    by code_simp
  have "\<not> isl (handleRobustnessTest codeUnitCompare ?vA)" by code_simp
  then obtain res where res: "handleRobustnessTest codeUnitCompare ?vA = Inr res"
    by (cases "handleRobustnessTest codeUnitCompare ?vA") auto
  note tA = robustness_test_fails_fast[where lc = codeUnitCompare and jsonParse = sampleParse
      and evs = "[(2, Fulfil ''users''), (0, Fulfil '' users''), (4, Fulfil ''users ''), (1, Fulfil ''users''), (3, Fulfil ''users'')]"
      and g = g and s = s and i = 4 and err = "Some ''timeout''" and t = "''  ''" and k = 1
      and m = "?empty" and vs = ?vA and x = TypeError and r = res]
  have f1: "list_all isFulfilled (calls ?A)" and f2: "outcome ?A \<noteq> None"
    using tA gs n by blast+
  have f9: "outcome ?A = Some (Succeeded (robustnessComparisonGroups res) (robustnessScore res))"
    using tA f1 lA res by blast
  have f5: "parseResponse sampleParse ''  '' = Inl ?empty" using tA t1 by blast
  note tR = robustness_test_fails_fast[where lc = codeUnitCompare and jsonParse = sampleParse
      and evs = "[(2, Fulfil ''users''), (1, Reject None), (0, Reject (Some ''late''))]"
      and g = g and s = s and i = 4 and err = "Some ''timeout''" and t = "'' users''" and k = 1
      and m = "?empty" and vs = ?vA and x = TypeError and r = res]
  have f3: "\<exists>e. Settled (Reject e) \<in> set (calls ?R) \<and> outcome ?R = Some (Failed (rethrown e))"
    using tR r by blast
  have f6: "parseResponse sampleParse '' users'' = sampleParse (trim '' users'')"
    using tR t2 by blast
  note tP = robustness_test_fails_fast[where lc = codeUnitCompare and jsonParse = sampleParse
      and evs = "[(2, Fulfil ''users''), (0, Fulfil ''posts'')]"
      and g = g and s = s and i = 4 and err = "Some ''timeout''" and t = "''  ''" and k = 1
      and m = "?empty" and vs = ?vA and x = TypeError and r = res]
  have f4: "outcome (onSettle codeUnitCompare sampleParse (4, Reject (Some ''timeout'')) ?P)
          = Some (Failed (rethrown (Some ''timeout'')))"
    using tP p by blast
  have f4n: "outcome ?P = None" using tP pn by blast
  note tE = robustness_test_fails_fast[where lc = codeUnitCompare and jsonParse = sampleParse
      and evs = "[(0, Fulfil ''users''), (1, Fulfil ''  ''), (2, Fulfil ''unparsable''), (3, Fulfil ''users''), (4, Fulfil ''users'')]"
      and g = g and s = s and i = 4 and err = "Some ''timeout''" and t = "''  ''" and k = 1
      and m = "?empty" and vs = ?vA and x = TypeError and r = res]
  have k1: "(1 :: nat) < 5" by simp
  have "outcome ?E = Some (Failed (''Failed to run robustness test: '' @ ?empty))"
    by (rule tE[THEN conjunct2, THEN conjunct2, THEN conjunct2, THEN conjunct2, THEN conjunct2, THEN conjunct2, THEN conjunct2, THEN conjunct2, THEN conjunct1, THEN mp]) (intro conjI fE k1 eb e1)
  then have f7: "outcome ?E
      = Some (Failed ''Failed to run robustness test: Received an empty response from the API.'')"
    by simp
  note tU = robustness_test_fails_fast[where lc = codeUnitCompare and jsonParse = sampleParse
      and evs = "[(4, Fulfil ''users''), (3, Fulfil ''users''), (2, Fulfil ''unparsable''), (1, Fulfil ''posts''), (0, Fulfil ''users'')]"
      and g = g and s = s and i = 4 and err = "Some ''timeout''" and t = "''  ''" and k = 2
      and m = "?rejected" and vs = ?vA and x = TypeError and r = res]
  have k2: "(2 :: nat) < 5" by simp
  have "outcome ?U = Some (Failed (''Failed to run robustness test: '' @ ?rejected))"
    by (rule tU[THEN conjunct2, THEN conjunct2, THEN conjunct2, THEN conjunct2, THEN conjunct2, THEN conjunct2, THEN conjunct2, THEN conjunct2, THEN conjunct1, THEN mp]) (intro conjI fU k2 ub u2)
  then have f8: "outcome ?U
      = Some (Failed ''Failed to run robustness test: Unexpected token u in JSON at position 0'')"
    by simp
  note tT = robustness_test_fails_fast[where lc = codeUnitCompare and jsonParse = sampleParse
      and evs = "[(0, Fulfil ''users''), (1, Fulfil ''users''), (2, Fulfil ''collections: 5''), (3, Fulfil ''users''), (4, Fulfil ''users'')]"
      and g = g and s = s and i = 4 and err = "Some ''timeout''" and t = "''  ''" and k = 1
      and m = "?empty" and vs = ?vT and x = TypeError and r = res]
  have f10: "outcome ?T = Some FailedTypeError" using tT fT lT hT by blast
  show ?thesis
    using a f1 r rm f3 p f4 pn t1 f5 t2 f6 fE e0 e1 f7 fU u2 f8 fT lT hT f10 lA res f9 n f2
    by blast
qed

end
